theory Spec2Isabelle
  imports Complex_Main "HOL-Library.Log_Nat" "HOL-Library.Word"
begin

section \<open>JavaScript numbers\<close>

text \<open>
  Every value the program computes with is a JavaScript number: an IEEE 754 double, or one
  of the infinities, or NaN. A finite double is modelled by the rational it denotes;
  the result of an arithmetic operation is the exact rational result rounded to the nearest
  double, ties to the even significand, and an infinity beyond the largest double.
  Negative zero is identified with zero: the program never observes the difference.
\<close>

datatype number = Fin rat | PInf | NInf | NaN

text \<open>\<open>floor_log2 q\<close> is the \<open>k\<close> with \<open>2^k \<le> q < 2^(k+1)\<close>, for \<open>q > 0\<close>.\<close>

definition floor_log2 :: "rat \<Rightarrow> int" where
  "floor_log2 q =
     (let (a, b) = quotient_of q; k = bitlen a - bitlen b
      in if 2 powi k \<le> q then k else k - 1)"

definition round_half_even :: "rat \<Rightarrow> int" where
  "round_half_even x =
     (let f = \<lfloor>x\<rfloor>; d = x - of_int f
      in if d < 1 / 2 then f else if 1 / 2 < d then f + 1
         else if even f then f else f + 1)"

text \<open>
  The spacing of the doubles around \<open>q\<close> is \<open>2^e\<close> with \<open>e = floor_log2 |q| - 52\<close>
  (53 significant bits), and \<open>2^(-1074)\<close> in the subnormal range.
\<close>

definition ulp_exponent :: "rat \<Rightarrow> int" where
  "ulp_exponent q = max (floor_log2 \<bar>q\<bar> - 52) (- 1074)"

text \<open>
  Rounding to a double. The significand \<open>m\<close> has at most 53 bits (\<open>|m| \<le> 2^53\<close>); the
  result \<open>m * 2^e\<close> overflows exactly when it reaches \<open>2^1024\<close>, that is when \<open>e > 971\<close>, or
  \<open>e = 971\<close> and \<open>|m| = 2^53\<close>.
\<close>

definition round_double :: "rat \<Rightarrow> number" where
  "round_double q =
     (if q = 0 then Fin 0
      else let e = ulp_exponent q;
               m = round_half_even (q / 2 powi e)
           in if 971 < e \<or> (e = 971 \<and> 2 ^ 53 \<le> \<bar>m\<bar>)
              then (if 0 < q then PInf else NInf)
              else Fin (of_int m * 2 powi e))"

text \<open>The rationals that are doubles: those that rounding leaves alone.\<close>

definition is_double :: "rat \<Rightarrow> bool" where
  "is_double q \<longleftrightarrow> round_double q = Fin q"

fun sign_of :: "number \<Rightarrow> rat" where
  "sign_of (Fin a) = sgn a"
| "sign_of PInf = 1"
| "sign_of NInf = - 1"
| "sign_of NaN = 0"

definition inf_of_sign :: "rat \<Rightarrow> number" where
  "inf_of_sign s = (if 0 < s then PInf else if s < 0 then NInf else NaN)"

text \<open>The operators \<open>*\<close>, \<open>+\<close>, unary and binary \<open>-\<close>, \<open>/\<close> and \<open>%\<close> of the language.\<close>

fun num_mul :: "number \<Rightarrow> number \<Rightarrow> number" where
  "num_mul NaN y = NaN"
| "num_mul x NaN = NaN"
| "num_mul (Fin a) (Fin b) = round_double (a * b)"
| "num_mul x y = inf_of_sign (sign_of x * sign_of y)"

fun num_add :: "number \<Rightarrow> number \<Rightarrow> number" where
  "num_add NaN y = NaN"
| "num_add x NaN = NaN"
| "num_add (Fin a) (Fin b) = round_double (a + b)"
| "num_add PInf NInf = NaN"
| "num_add NInf PInf = NaN"
| "num_add PInf y = PInf"
| "num_add x PInf = PInf"
| "num_add NInf y = NInf"
| "num_add x NInf = NInf"

fun num_neg :: "number \<Rightarrow> number" where
  "num_neg (Fin a) = Fin (- a)"
| "num_neg PInf = NInf"
| "num_neg NInf = PInf"
| "num_neg NaN = NaN"

definition num_sub :: "number \<Rightarrow> number \<Rightarrow> number" where
  "num_sub x y = num_add x (num_neg y)"

fun num_div :: "number \<Rightarrow> number \<Rightarrow> number" where
  "num_div NaN y = NaN"
| "num_div x NaN = NaN"
| "num_div (Fin a) (Fin b) = (if b = 0 then inf_of_sign a else round_double (a / b))"
| "num_div (Fin a) y = Fin 0"
| "num_div x (Fin b) = inf_of_sign (sign_of x * (if 0 \<le> b then 1 else - 1))"
| "num_div x y = NaN"

definition trunc :: "rat \<Rightarrow> int" where
  "trunc z = (if 0 \<le> z then \<lfloor>z\<rfloor> else \<lceil>z\<rceil>)"

text \<open>
  The remainder \<open>a % b\<close> has the sign of the dividend and is computed without rounding:
  the exact remainder of two doubles is a double.
\<close>

fun num_rem :: "number \<Rightarrow> number \<Rightarrow> number" where
  "num_rem (Fin a) (Fin b) = (if b = 0 then NaN else Fin (a - b * of_int (trunc (a / b))))"
| "num_rem (Fin a) PInf = Fin a"
| "num_rem (Fin a) NInf = Fin a"
| "num_rem x y = NaN"

text \<open>The comparisons \<open>x < y\<close> and \<open>x <= y\<close>; \<open>x > y\<close> is \<open>y < x\<close> and \<open>x >= y\<close> is \<open>y <= x\<close>.\<close>

fun num_lt :: "number \<Rightarrow> number \<Rightarrow> bool" where
  "num_lt NaN y = False"
| "num_lt x NaN = False"
| "num_lt (Fin a) (Fin b) = (a < b)"
| "num_lt x NInf = False"
| "num_lt PInf y = False"
| "num_lt x y = True"

fun num_le :: "number \<Rightarrow> number \<Rightarrow> bool" where
  "num_le NaN y = False"
| "num_le x NaN = False"
| "num_le (Fin a) (Fin b) = (a \<le> b)"
| "num_le NInf y = True"
| "num_le x PInf = True"
| "num_le x y = False"

fun isFinite :: "number \<Rightarrow> bool" where
  "isFinite (Fin a) = True"
| "isFinite x = False"

fun isInteger :: "number \<Rightarrow> bool" where
  "isInteger (Fin a) = (of_int \<lfloor>a\<rfloor> = a)"
| "isInteger x = False"

fun Math_max :: "number \<Rightarrow> number \<Rightarrow> number" where
  "Math_max NaN y = NaN"
| "Math_max x NaN = NaN"
| "Math_max x y = (if num_lt x y then y else x)"


section \<open>The generator\<close>

record LCGGenerator =
  multiplier :: number
  increment :: number
  modulus :: number
  seed :: number

text \<open>
  The loop of \<open>generate\<close>, by recursion on the number of iterations left: each iteration
  replaces \<open>current\<close> by \<open>(multiplier * current + increment) % modulus\<close> and pushes it.
\<close>

fun generate_loop :: "LCGGenerator \<Rightarrow> nat \<Rightarrow> number \<Rightarrow> number list" where
  "generate_loop g 0 current = []"
| "generate_loop g (Suc k) current =
     (let current' = num_rem (num_add (num_mul (multiplier g) current) (increment g)) (modulus g)
      in current' # generate_loop g k current')"

text \<open>
  \<open>count\<close> is an integer: the counter \<open>i\<close> runs through 0, 1, 2, ... while \<open>i < count\<close>,
  not at all when \<open>count \<le> 0\<close>. The array is a list, without the length limit of an array.
\<close>

definition generate :: "LCGGenerator \<Rightarrow> int \<Rightarrow> number list" where
  "generate g count = generate_loop g (nat count) (seed g)"

record Sample =
  raw :: number
  normalized :: number

definition generateNormalized :: "LCGGenerator \<Rightarrow> int \<Rightarrow> Sample list" where
  "generateNormalized g count =
     map (\<lambda>v. \<lparr>raw = v, normalized = num_div v (modulus g)\<rparr>) (generate g count)"

text \<open>
  The recurrence as the specification words it: \<open>x[0] = seed\<close>,
  \<open>x[i] = (multiplier * x[i-1] + increment) mod modulus\<close>, over the integers.
\<close>

fun recurrence :: "int \<Rightarrow> int \<Rightarrow> int \<Rightarrow> int \<Rightarrow> nat \<Rightarrow> int" where
  "recurrence a c m s 0 = s"
| "recurrence a c m s (Suc i) = (a * recurrence a c m s i + c) mod m"

text \<open>The generator with the integer parameters \<open>a\<close>, \<open>c\<close>, \<open>m\<close> and seed \<open>s\<close>.\<close>

definition lcg :: "int \<Rightarrow> int \<Rightarrow> int \<Rightarrow> int \<Rightarrow> LCGGenerator" where
  "lcg a c m s =
     \<lparr>multiplier = Fin (of_int a), increment = Fin (of_int c),
      modulus = Fin (of_int m), seed = Fin (of_int s)\<rparr>"


section \<open>The scatter plot\<close>

text \<open>The width and height of a canvas element are unsigned 32-bit integers.\<close>

record Canvas =
  width :: "32 word"
  height :: "32 word"

record PlotPoint =
  px :: number
  py :: number

text \<open>
  \<open>plot\<close> returns the centres of the circles it draws, in drawing order. Indices and
  lengths of arrays are integers below \<open>2^32\<close>, hence doubles.
\<close>

definition padding_left :: number where "padding_left = Fin 40"
definition padding_right :: number where "padding_right = Fin 20"
definition padding_top :: number where "padding_top = Fin 20"
definition padding_bottom :: number where "padding_bottom = Fin 30"

text \<open>A dimension of the canvas as a number.\<close>

definition dim :: "32 word \<Rightarrow> number" where
  "dim w = Fin (of_nat (unat w))"

definition plot :: "Canvas \<Rightarrow> Sample list \<Rightarrow> PlotPoint list" where
  "plot canvas data =
     (if length data = 0 then []
      else
        let w = num_sub (num_sub (dim (width canvas)) padding_left) padding_right;
            h = num_sub (num_sub (dim (height canvas)) padding_top) padding_bottom
        in map (\<lambda>(index, s).
                 \<lparr>px = num_add padding_left
                         (num_mul (num_div (Fin (of_nat index))
                                           (Math_max (Fin (of_nat (length data - 1))) (Fin 1))) w),
                  py = num_add padding_top (num_mul (num_sub (Fin 1) (normalized s)) h)\<rparr>)
               (enumerate 0 data))"


section \<open>The next power of two\<close>

text \<open>
  \<open>Math.log2\<close> returns a double. The language leaves its accuracy to the implementation;
  it is taken to be the double nearest to the logarithm, and the logarithm itself where
  that is an integer. Only the ceiling of the result is used. For \<open>2^k < n < 2^(k+1)\<close> the
  logarithm lies strictly between \<open>k\<close> and \<open>k + 1\<close>, which are doubles, so that the ceiling
  of the nearest double is \<open>k\<close> if that double is \<open>k\<close>, and \<open>k + 1\<close> otherwise. The double
  nearest to the logarithm is \<open>k\<close> when the logarithm lies below the midpoint of \<open>k\<close> and the
  next double: the midpoint is \<open>k + 1 / 2^j\<close> with \<open>j = 53 - floor_log2 k\<close> (and \<open>j = 1075\<close>
  for \<open>k = 0\<close>), and \<open>log2 n < k + 1 / 2^j\<close> means \<open>(n / 2^k) ^ (2^j) < 2\<close>.
\<close>

definition midpoint_exponent :: "int \<Rightarrow> nat" where
  "midpoint_exponent k = (if k = 0 then 1075 else nat (53 - floor_log2 (of_int k)))"

definition log2_rounds_down :: "rat \<Rightarrow> int \<Rightarrow> bool" where
  "log2_rounds_down q k \<longleftrightarrow> (q / 2 powi k) ^ (2 ^ midpoint_exponent k) < 2"

text \<open>\<open>Math.ceil(Math.log2(n))\<close> for a finite \<open>n \<ge> 1\<close>.\<close>

definition ceil_log2 :: "number \<Rightarrow> nat" where
  "ceil_log2 n =
     (case n of
        Fin q \<Rightarrow>
          (let k = floor_log2 q
           in nat (if q = 2 powi k \<or> log2_rounds_down q k then k else k + 1))
      | _ \<Rightarrow> 0)"

text \<open>\<open>2 ** k\<close> for a natural number \<open>k\<close>.\<close>

definition pow2 :: "nat \<Rightarrow> number" where
  "pow2 k = round_double (2 ^ k)"

definition nextPow2 :: "number \<Rightarrow> number" where
  "nextPow2 n =
     (if \<not> isFinite n \<or> num_lt n (Fin 1) then Fin 2
      else Math_max (Fin 2) (pow2 (ceil_log2 n)))"


section \<open>Reading a number from a string\<close>

text \<open>
  \<open>Number(s)\<close> for a string of ASCII characters: white space around the literal is dropped,
  the empty string is 0, a literal is a signed decimal literal (digits, an optional
  fraction, an optional exponent), \<open>Infinity\<close> with an optional sign, or an unsigned
  binary, octal or hexadecimal integer; every other string is NaN.
\<close>

definition is_space :: "char \<Rightarrow> bool" where
  "is_space c \<longleftrightarrow> c \<in> set [CHR 0x09, CHR 0x0A, CHR 0x0B, CHR 0x0C, CHR 0x0D, CHR '' '']"

definition trim :: "string \<Rightarrow> string" where
  "trim s = rev (dropWhile is_space (rev (dropWhile is_space s)))"

definition digit_value :: "char \<Rightarrow> int option" where
  "digit_value c =
     (let n = (of_char c :: int)
      in if 48 \<le> n \<and> n \<le> 57 then Some (n - 48)
         else if 97 \<le> n \<and> n \<le> 102 then Some (n - 87)
         else if 65 \<le> n \<and> n \<le> 70 then Some (n - 55)
         else None)"

text \<open>The value of a non-empty string of digits of base \<open>b\<close>.\<close>

fun digits_acc :: "int \<Rightarrow> int \<Rightarrow> string \<Rightarrow> int option" where
  "digits_acc b acc [] = Some acc"
| "digits_acc b acc (c # cs) =
     (case digit_value c of
        None \<Rightarrow> None
      | Some d \<Rightarrow> if d < b then digits_acc b (acc * b + d) cs else None)"

definition digits_value :: "int \<Rightarrow> string \<Rightarrow> int option" where
  "digits_value b s = (if s = [] then None else digits_acc b 0 s)"

definition signed_integer :: "string \<Rightarrow> int option" where
  "signed_integer s =
     (case s of
        CHR ''+'' # ds \<Rightarrow> digits_value 10 ds
      | CHR ''-'' # ds \<Rightarrow> map_option uminus (digits_value 10 ds)
      | _ \<Rightarrow> digits_value 10 s)"

definition is_exp_mark :: "char \<Rightarrow> bool" where
  "is_exp_mark c \<longleftrightarrow> c = CHR ''e'' \<or> c = CHR ''E''"

text \<open>An unsigned decimal literal: \<open>digits [. [digits]] [exponent]\<close> or \<open>. digits [exponent]\<close>.\<close>

definition decimal_value :: "string \<Rightarrow> rat option" where
  "decimal_value s =
     (let mant = takeWhile (\<lambda>c. \<not> is_exp_mark c) s;
          expo = dropWhile (\<lambda>c. \<not> is_exp_mark c) s;
          ip = takeWhile (\<lambda>c. c \<noteq> CHR ''.'') mant;
          fp = drop 1 (dropWhile (\<lambda>c. c \<noteq> CHR ''.'') mant);
          ex = (if expo = [] then Some 0 else signed_integer (drop 1 expo))
      in if ip = [] \<and> fp = [] then None
         else case (digits_value 10 (ip @ fp), ex) of
                (Some n, Some k) \<Rightarrow> Some (of_int n * 10 powi (k - int (length fp)))
              | _ \<Rightarrow> None)"

definition Number :: "string \<Rightarrow> number" where
  "Number s =
     (let t = trim s
      in if t = [] then Fin 0
         else if take 2 t = ''0x'' \<or> take 2 t = ''0X''
           then (case digits_value 16 (drop 2 t) of Some n \<Rightarrow> round_double (of_int n) | None \<Rightarrow> NaN)
         else if take 2 t = ''0o'' \<or> take 2 t = ''0O''
           then (case digits_value 8 (drop 2 t) of Some n \<Rightarrow> round_double (of_int n) | None \<Rightarrow> NaN)
         else if take 2 t = ''0b'' \<or> take 2 t = ''0B''
           then (case digits_value 2 (drop 2 t) of Some n \<Rightarrow> round_double (of_int n) | None \<Rightarrow> NaN)
         else
           let neg = (take 1 t = ''-'');
               u = (if take 1 t = ''-'' \<or> take 1 t = ''+'' then drop 1 t else t)
           in if u = ''Infinity'' then (if neg then NInf else PInf)
              else case decimal_value u of
                     Some q \<Rightarrow> round_double (if neg then - q else q)
                   | None \<Rightarrow> NaN)"


section \<open>Validation\<close>

text \<open>
  The errors the validators throw, named after their messages. The validator of
  \<open>src/script.js\<close> derives the modulus from the count and throws the first three; the
  validator of the other source file (\<open>src/unnamed/part_000\<close>), which reads the modulus
  from the form, throws the last five.
\<close>

datatype error =
    NotIntegers           \<comment> \<open>all parameters must be integers (without decimals)\<close>
  | InvalidValues         \<comment> \<open>no negatives allowed and the count must be at least 1\<close>
  | SeedOutOfRange number \<comment> \<open>the seed must satisfy 0 <= seed < modulus (m = ...)\<close>
  | NotIntegers0          \<comment> \<open>all parameters must be integer numbers\<close>
  | ModulusTooSmall       \<comment> \<open>the modulus must be an integer greater than 1\<close>
  | SeedOutOfRange0       \<comment> \<open>the seed must satisfy 0 <= seed < modulus\<close>
  | CountTooSmall         \<comment> \<open>the count of numbers must be greater than 0\<close>
  | Cancelled             \<comment> \<open>generation cancelled by the user\<close>

text \<open>The specification's names for these errors (its section on error handling).\<close>

datatype error_class = ParseError | RangeError | SeedRangeError | UserCancellation

fun error_class_of :: "error \<Rightarrow> error_class" where
  "error_class_of NotIntegers = ParseError"
| "error_class_of NotIntegers0 = ParseError"
| "error_class_of InvalidValues = RangeError"
| "error_class_of ModulusTooSmall = RangeError"
| "error_class_of CountTooSmall = RangeError"
| "error_class_of (SeedOutOfRange m) = SeedRangeError"
| "error_class_of SeedOutOfRange0 = SeedRangeError"
| "error_class_of Cancelled = UserCancellation"

record RawValues =
  seed_text :: string
  multiplier_text :: string
  increment_text :: string
  count_text :: string

record RawValues0 = RawValues +
  modulus_text :: string

record Parsed =
  seed_num :: number
  multiplier_num :: number
  increment_num :: number
  count_num :: number
  modulus_num :: number

text \<open>
  \<open>validateInputs\<close> of \<open>src/script.js\<close>. On success it also writes the derived modulus to
  the read-only modulus field of the form; \<open>handleSubmit\<close> below records that.
\<close>

definition validateInputs :: "RawValues \<Rightarrow> error + Parsed" where
  "validateInputs r =
     (let s = Number (seed_text r); a = Number (multiplier_text r);
          c = Number (increment_text r); n = Number (count_text r)
      in if \<exists>v \<in> set [s, a, c, n]. \<not> isFinite v \<or> \<not> isInteger v then Inl NotIntegers
         else if num_lt s (Fin 0) \<or> num_lt a (Fin 0) \<or> num_lt c (Fin 0) \<or> num_lt n (Fin 1)
           then Inl InvalidValues
         else
           let m = nextPow2 n
           in if num_lt s (Fin 0) \<or> num_le m s then Inl (SeedOutOfRange m)
              else Inr \<lparr>seed_num = s, multiplier_num = a, increment_num = c,
                        count_num = n, modulus_num = m\<rparr>)"

text \<open>
  The effects of a submission beyond the display: the confirmation dialog and the call of
  the generator, in the order in which they happen.
\<close>

datatype effect = Confirm | Generate LCGGenerator number

text \<open>
  \<open>validateInputs\<close> of the other source file. \<open>answer\<close> is what the user answers if the
  confirmation dialog is shown; the dialogs shown are returned with the result.
\<close>

definition validateInputs0 :: "bool \<Rightarrow> RawValues0 \<Rightarrow> effect list \<times> (error + Parsed)" where
  "validateInputs0 answer r =
     (let s = Number (seed_text r); a = Number (multiplier_text r);
          c = Number (increment_text r); m = Number (modulus_text r);
          n = Number (count_text r)
      in if \<exists>v \<in> set [s, a, c, m, n]. \<not> isInteger v then ([], Inl NotIntegers0)
         else if num_le m (Fin 1) then ([], Inl ModulusTooSmall)
         else if num_lt s (Fin 0) \<or> num_le m s then ([], Inl SeedOutOfRange0)
         else if num_le n (Fin 0) then ([], Inl CountTooSmall)
         else if num_lt (Fin 100) n \<and> \<not> answer then ([Confirm], Inl Cancelled)
         else (if num_lt (Fin 100) n then [Confirm] else [],
               Inr \<lparr>seed_num = s, multiplier_num = a, increment_num = c,
                    count_num = n, modulus_num = m\<rparr>))"


section \<open>The application\<close>

text \<open>
  What a submission reads and what it shows: the text of the form fields, the derived
  modulus echoed into the modulus field by \<open>src/script.js\<close>, the error message (\<open>None\<close>
  when the error region is empty), the list of results, and the points on the canvas
  (the axes are redrawn whenever the canvas is cleared).
\<close>

record App =
  form :: RawValues0
  modulus_echo :: "number option"
  errorMessage :: "error option"
  resultsContainer :: "Sample list"
  canvas :: Canvas
  plotted :: "PlotPoint list"

definition getInputValues :: "App \<Rightarrow> RawValues" where
  "getInputValues app =
     \<lparr>seed_text = trim (seed_text (form app)),
      multiplier_text = trim (multiplier_text (form app)),
      increment_text = trim (increment_text (form app)),
      count_text = trim (count_text (form app))\<rparr>"

definition getInputValues0 :: "App \<Rightarrow> RawValues0" where
  "getInputValues0 app =
     \<lparr>seed_text = trim (seed_text (form app)),
      multiplier_text = trim (multiplier_text (form app)),
      increment_text = trim (increment_text (form app)),
      count_text = trim (count_text (form app)),
      modulus_text = trim (modulus_text (form app))\<rparr>"

text \<open>The validated count is an integer; the generator's loop runs over it.\<close>

definition count_of :: "number \<Rightarrow> int" where
  "count_of n = (case n of Fin q \<Rightarrow> \<lfloor>q\<rfloor> | _ \<Rightarrow> 0)"

definition generator_of :: "Parsed \<Rightarrow> LCGGenerator" where
  "generator_of p =
     \<lparr>multiplier = multiplier_num p, increment = increment_num p,
      modulus = modulus_num p, seed = seed_num p\<rparr>"

text \<open>The \<open>catch\<close> block of \<open>handleSubmit\<close>, the same in both files.\<close>

definition on_error :: "error \<Rightarrow> App \<Rightarrow> App" where
  "on_error e app =
     (if e = Cancelled then app
      else app\<lparr>errorMessage := Some e, resultsContainer := [], plotted := []\<rparr>)"

definition show_data :: "Sample list \<Rightarrow> App \<Rightarrow> App" where
  "show_data data app = app\<lparr>resultsContainer := data, plotted := plot (canvas app) data\<rparr>"

text \<open>\<open>handleSubmit\<close> of \<open>src/script.js\<close>.\<close>

definition handleSubmit :: "App \<Rightarrow> App \<times> effect list" where
  "handleSubmit app =
     (let app1 = app\<lparr>errorMessage := None\<rparr>
      in case validateInputs (getInputValues app1) of
           Inl e \<Rightarrow> (on_error e app1, [])
         | Inr p \<Rightarrow>
             let app2 = app1\<lparr>modulus_echo := Some (modulus_num p)\<rparr>;
                 data = generateNormalized (generator_of p) (count_of (count_num p))
             in (show_data data app2, [Generate (generator_of p) (count_num p)]))"

text \<open>\<open>handleSubmit\<close> of the other source file.\<close>

definition handleSubmit0 :: "bool \<Rightarrow> App \<Rightarrow> App \<times> effect list" where
  "handleSubmit0 answer app =
     (let app1 = app\<lparr>errorMessage := None\<rparr>
      in case validateInputs0 answer (getInputValues0 app1) of
           (dialogs, Inl e) \<Rightarrow> (on_error e app1, dialogs)
         | (dialogs, Inr p) \<Rightarrow>
             let data = generateNormalized (generator_of p) (count_of (count_num p))
             in (show_data data app1, dialogs @ [Generate (generator_of p) (count_num p)]))"

text \<open>Every field of the form converts to an integer.\<close>

definition all_integers :: "'a RawValues_scheme \<Rightarrow> bool" where
  "all_integers r \<longleftrightarrow>
     isInteger (Number (seed_text r)) \<and> isInteger (Number (multiplier_text r))
     \<and> isInteger (Number (increment_text r)) \<and> isInteger (Number (count_text r))"

definition all_integers0 :: "RawValues0 \<Rightarrow> bool" where
  "all_integers0 r \<longleftrightarrow> all_integers r \<and> isInteger (Number (modulus_text r))"

text \<open>
  An application that shows nothing yet, with a canvas of 600 by 400 and the given text in
  the fields of its form.
\<close>

definition fresh_app :: "string \<Rightarrow> string \<Rightarrow> string \<Rightarrow> string \<Rightarrow> string \<Rightarrow> App" where
  "fresh_app s a c m n =
     \<lparr>form = \<lparr>seed_text = s, multiplier_text = a, increment_text = c, count_text = n,
               modulus_text = m\<rparr>,
      modulus_echo = None, errorMessage = None, resultsContainer = [],
      canvas = \<lparr>width = 600, height = 400\<rparr>, plotted = []\<rparr>"

section \<open>Rounding to a double\<close>

subsection \<open>The binary exponent\<close>

lemma powi2_pos [simp]: "0 < (2::rat) powi k"
  by (simp add: power_int_def)

lemma powi2_mono: "k \<le> l \<Longrightarrow> (2::rat) powi k \<le> 2 powi l"
  by (rule power_int_increasing) simp_all

lemma powi2_strict_mono: "k < l \<Longrightarrow> (2::rat) powi k < 2 powi l"
  by (rule power_int_strict_increasing) simp_all

lemma powi2_less_iff: "(2::rat) powi k < 2 powi l \<longleftrightarrow> k < l"
  by (metis powi2_strict_mono powi2_mono linorder_not_less)

lemma floor_log2_bounds:
  assumes "0 < q"
  shows "2 powi (floor_log2 q) \<le> q \<and> q < 2 powi (floor_log2 q + 1)"
proof -
  obtain a b where ab: "quotient_of q = (a, b)" by (cases "quotient_of q")
  have b: "0 < b" using ab quotient_of_denom_pos by blast
  have q: "q = of_int a / of_int b" using ab quotient_of_div by blast
  have a: "0 < a" using assms b q by (simp add: zero_less_divide_iff)
  define la where "la = bitlen a"
  define lb where "lb = bitlen b"
  have la1: "1 \<le> la" and lb1: "1 \<le> lb"
    using a b bitlen_eq_zero_iff [of a] bitlen_eq_zero_iff [of b] bitlen_nonneg [of a] bitlen_nonneg [of b]
    unfolding la_def lb_def by linarith+
  have ba: "2 ^ nat (la - 1) \<le> a" "a < 2 ^ nat la"
    using bitlen_bounds [OF a] by (simp_all add: la_def)
  have bb: "2 ^ nat (lb - 1) \<le> b" "b < 2 ^ nat lb"
    using bitlen_bounds [OF b] by (simp_all add: lb_def)
  have ra: "(2::rat) powi (la - 1) \<le> of_int a" "of_int a < (2::rat) powi la"
  proof -
    have "(of_int (2 ^ nat (la - 1)) :: rat) \<le> of_int a" using ba(1) by (simp only: of_int_le_iff)
    then show "(2::rat) powi (la - 1) \<le> of_int a" using la1 by (simp add: power_int_def)
    have "(of_int a :: rat) < of_int (2 ^ nat la)" using ba(2) by (simp only: of_int_less_iff)
    then show "of_int a < (2::rat) powi la" using la1 by (simp add: power_int_def)
  qed
  have rb: "(2::rat) powi (lb - 1) \<le> of_int b" "of_int b < (2::rat) powi lb"
  proof -
    have "(of_int (2 ^ nat (lb - 1)) :: rat) \<le> of_int b" using bb(1) by (simp only: of_int_le_iff)
    then show "(2::rat) powi (lb - 1) \<le> of_int b" using lb1 by (simp add: power_int_def)
    have "(of_int b :: rat) < of_int (2 ^ nat lb)" using bb(2) by (simp only: of_int_less_iff)
    then show "of_int b < (2::rat) powi lb" using lb1 by (simp add: power_int_def)
  qed
  have bpos: "(0::rat) < of_int b" using b by simp
  have lo: "2 powi (la - lb - 1) < q"
  proof -
    have "2 powi (la - lb - 1) * of_int b < (2::rat) powi (la - lb - 1) * 2 powi lb"
      using rb(2) by (simp add: mult_strict_left_mono)
    also have "\<dots> = 2 powi (la - 1)"
      by (simp flip: power_int_add)
    also have "\<dots> \<le> of_int a" by (rule ra(1))
    finally show ?thesis using bpos by (simp add: q pos_less_divide_eq)
  qed
  have hi: "q < 2 powi (la - lb + 1)"
  proof -
    have "of_int a < (2::rat) powi la" by (rule ra(2))
    also have "\<dots> = 2 powi (la - lb + 1) * 2 powi (lb - 1)"
      by (simp flip: power_int_add)
    also have "\<dots> \<le> 2 powi (la - lb + 1) * of_int b"
      using rb(1) by (simp add: mult_left_mono)
    finally show ?thesis using bpos by (simp add: q pos_divide_less_eq)
  qed
  have fl: "floor_log2 q = (if 2 powi (la - lb) \<le> q then la - lb else la - lb - 1)"
    by (simp add: floor_log2_def ab la_def lb_def Let_def)
  show ?thesis
  proof (cases "2 powi (la - lb) \<le> q")
    case True
    then show ?thesis using hi by (simp add: fl)
  next
    case False
    then show ?thesis using lo by (simp add: fl)
  qed
qed

lemma floor_log2_unique:
  assumes "2 powi k \<le> q" "q < 2 powi (k + 1)"
  shows "floor_log2 q = k"
proof -
  have q: "0 < q" using assms(1) powi2_pos [of k] by linarith
  note b = floor_log2_bounds [OF q]
  have "2 powi k < (2::rat) powi (floor_log2 q + 1)" using assms(1) b by linarith
  then have 1: "k < floor_log2 q + 1" by (simp add: powi2_less_iff)
  have "2 powi (floor_log2 q) < (2::rat) powi (k + 1)" using assms(2) b by linarith
  then have 2: "floor_log2 q < k + 1" by (simp add: powi2_less_iff)
  from 1 2 show ?thesis by simp
qed


subsection \<open>Rounding\<close>

lemma round_half_even_of_int [simp]: "round_half_even (of_int k) = k"
  by (simp add: round_half_even_def)

lemma round_half_even_le: "x \<le> of_int N \<Longrightarrow> round_half_even x \<le> N"
proof -
  assume x: "x \<le> of_int N"
  then have f: "\<lfloor>x\<rfloor> \<le> N" by (simp add: floor_le_iff)
  show ?thesis
  proof (cases "\<lfloor>x\<rfloor> = N")
    case True
    then have "x - of_int \<lfloor>x\<rfloor> \<le> 0" using x by simp
    then show ?thesis using True by (simp add: round_half_even_def Let_def)
  next
    case False
    then have "\<lfloor>x\<rfloor> + 1 \<le> N" using f by simp
    then show ?thesis by (simp add: round_half_even_def Let_def)
  qed
qed

lemma round_half_even_ge: "of_int N \<le> x \<Longrightarrow> N \<le> round_half_even x"
proof -
  assume "of_int N \<le> x"
  then have "N \<le> \<lfloor>x\<rfloor>" by (simp add: le_floor_iff)
  then show ?thesis by (simp add: round_half_even_def Let_def)
qed

lemma ulp_exponent_ge: "- 1074 \<le> ulp_exponent q"
  by (simp add: ulp_exponent_def)

lemma scaled_less_pow53:
  assumes "q \<noteq> 0"
  shows "\<bar>q\<bar> / 2 powi (ulp_exponent q) < 2 ^ 53"
proof -
  have q: "0 < \<bar>q\<bar>" using assms by simp
  define fl where "fl = floor_log2 \<bar>q\<bar>"
  have "\<bar>q\<bar> < 2 powi (fl + 1)" using floor_log2_bounds [OF q] by (simp add: fl_def)
  also have "\<dots> \<le> 2 powi (ulp_exponent q + 53)"
    by (rule powi2_mono) (simp add: ulp_exponent_def fl_def)
  also have "\<dots> = 2 powi (ulp_exponent q) * 2 ^ 53"
    by (simp add: power_int_add)
  finally show ?thesis by (simp add: pos_divide_less_eq mult.commute)
qed

lemma mantissa_bound:
  assumes "q \<noteq> 0"
  shows "\<bar>round_half_even (q / 2 powi (ulp_exponent q))\<bar> \<le> 2 ^ 53"
proof -
  define x where "x = q / 2 powi (ulp_exponent q)"
  have "\<bar>x\<bar> = \<bar>q\<bar> / 2 powi (ulp_exponent q)" by (simp add: x_def abs_divide)
  then have "\<bar>x\<bar> < 2 ^ 53" using scaled_less_pow53 [OF assms] by simp
  then have "x < 2 ^ 53" "- (2 ^ 53) < x" by (simp_all add: abs_less_iff)
  then have b: "x \<le> of_int (2 ^ 53)" "of_int (- (2 ^ 53)) \<le> x" by simp_all
  have "round_half_even x \<le> 2 ^ 53" using b(1) by (rule round_half_even_le)
  moreover have "- (2 ^ 53) \<le> round_half_even x" using b(2) by (rule round_half_even_ge)
  ultimately show ?thesis by (simp add: x_def)
qed

lemma round_double_exact:
  assumes q: "q = of_int M * 2 powi e" and M: "\<bar>M\<bar> < 2 ^ 53"
    and e: "- 1074 \<le> e" "e \<le> 971"
  shows "round_double q = Fin q"
proof (cases "M = 0")
  case True
  then show ?thesis by (simp add: q round_double_def)
next
  case False
  then have q0: "q \<noteq> 0" by (simp add: q)
  have aq: "\<bar>q\<bar> = of_int \<bar>M\<bar> * 2 powi e" by (simp add: q abs_mult)
  define e' where "e' = ulp_exponent q"
  have "(of_int \<bar>M\<bar> :: rat) < of_int (2 ^ 53)" using M by (simp only: of_int_less_iff)
  then have "\<bar>q\<bar> < 2 ^ 53 * 2 powi e" by (simp add: aq)
  also have "\<dots> = 2 powi (e + 53)" by (simp add: power_int_add)
  finally have up: "\<bar>q\<bar> < 2 powi (e + 53)" .
  have "2 powi (floor_log2 \<bar>q\<bar>) \<le> \<bar>q\<bar>" using floor_log2_bounds [of "\<bar>q\<bar>"] q0 by simp
  then have "(2::rat) powi (floor_log2 \<bar>q\<bar>) < 2 powi (e + 53)" using up by linarith
  then have "floor_log2 \<bar>q\<bar> < e + 53" by (simp add: powi2_less_iff)
  then have le: "e' \<le> e" using e by (simp add: e'_def ulp_exponent_def)
  have sc: "q / 2 powi e' = of_int (M * 2 ^ nat (e - e'))"
  proof -
    have "(2::rat) powi e = 2 powi e' * 2 powi (e - e')" by (simp flip: power_int_add)
    moreover have "(2::rat) powi (e - e') = 2 ^ nat (e - e')" using le by (simp add: power_int_def)
    ultimately show ?thesis by (simp add: q)
  qed
  have m: "round_half_even (q / 2 powi e') = M * 2 ^ nat (e - e')"
    by (simp only: sc round_half_even_of_int)
  have restore: "of_int (M * 2 ^ nat (e - e')) * 2 powi e' = q"
    using sc by (simp add: field_simps)
  have nov: "\<not> (971 < e' \<or> (e' = 971 \<and> 2 ^ 53 \<le> \<bar>M * 2 ^ nat (e - e')\<bar>))"
  proof (cases "e' = 971")
    case True
    then have "e = 971" using le e by simp
    then show ?thesis using True M by simp
  next
    case False
    then show ?thesis using le e by simp
  qed
  show ?thesis
    using q0 nov restore by (simp add: round_double_def Let_def m flip: e'_def)
qed

lemma round_double_of_int:
  assumes "\<bar>n\<bar> \<le> 2 ^ 53"
  shows "round_double (of_int n) = Fin (of_int n)"
proof (cases "\<bar>n\<bar> = 2 ^ 53")
  case True
  then have "n = 2 ^ 53 \<or> n = - (2 ^ 53)" by linarith
  then have "(of_int n :: rat) = of_int (n div 2 ^ 53) * 2 powi 53" by auto
  moreover have "\<bar>n div 2 ^ 53\<bar> < 2 ^ 53" using \<open>n = 2 ^ 53 \<or> n = - (2 ^ 53)\<close> by auto
  ultimately show ?thesis by (rule round_double_exact) simp_all
next
  case False
  then have "\<bar>n\<bar> < 2 ^ 53" using assms by simp
  moreover have "(of_int n :: rat) = of_int n * 2 powi 0" by simp
  ultimately show ?thesis using round_double_exact [of "of_int n" n 0] by simp
qed

lemma round_double_idem:
  assumes "round_double q = Fin r"
  shows "round_double r = Fin r"
proof (cases "q = 0")
  case True
  then have "r = 0" using assms by (simp add: round_double_def)
  then show ?thesis by (simp add: round_double_def)
next
  case False
  define e where "e = ulp_exponent q"
  define m where "m = round_half_even (q / 2 powi e)"
  have nov: "\<not> (971 < e \<or> (e = 971 \<and> 2 ^ 53 \<le> \<bar>m\<bar>))" and r: "r = of_int m * 2 powi e"
    using assms False by (auto simp add: round_double_def Let_def e_def m_def split: if_splits)
  have mb: "\<bar>m\<bar> \<le> 2 ^ 53" using mantissa_bound [OF False] by (simp add: m_def e_def)
  have e: "- 1074 \<le> e" by (simp add: e_def ulp_exponent_ge)
  show ?thesis
  proof (cases "\<bar>m\<bar> = 2 ^ 53")
    case True
    then have e1: "e + 1 \<le> 971" using nov by simp
    have "m = 2 ^ 53 \<or> m = - (2 ^ 53)" using True by linarith
    then have "r = of_int (m div 2) * 2 powi (e + 1)"
      by (auto simp add: r power_int_add)
    moreover have "\<bar>m div 2\<bar> < 2 ^ 53" using \<open>m = 2 ^ 53 \<or> m = - (2 ^ 53)\<close> by auto
    ultimately show ?thesis using e e1 by (intro round_double_exact [of r "m div 2" "e + 1"]) simp_all
  next
    case False
    then have "\<bar>m\<bar> < 2 ^ 53" using mb by simp
    then show ?thesis using r e nov by (intro round_double_exact [of r m e]) simp_all
  qed
qed

lemma floor_log2_mono:
  assumes "0 < q" "q \<le> p"
  shows "floor_log2 q \<le> floor_log2 p"
proof -
  have p: "0 < p" using assms by simp
  have "2 powi (floor_log2 q) \<le> q" using floor_log2_bounds [OF assms(1)] by simp
  also have "q \<le> p" by fact
  also have "p < 2 powi (floor_log2 p + 1)" using floor_log2_bounds [OF p] by simp
  finally have "floor_log2 q < floor_log2 p + 1" by (simp add: powi2_less_iff)
  then show ?thesis by simp
qed

lemma round_double_bounded:
  assumes q: "0 \<le> q" "q \<le> B" and B: "round_double B = Fin B"
  shows "\<exists>r. round_double q = Fin r \<and> 0 \<le> r \<and> r \<le> B"
proof (cases "q = 0")
  case True
  then show ?thesis using q by (simp add: round_double_def)
next
  case False
  then have qp: "0 < q" and Bp: "0 < B" using q by simp_all
  define e where "e = ulp_exponent q"
  define eB where "eB = ulp_exponent B"
  define m where "m = round_half_even (q / 2 powi e)"
  define mB where "mB = round_half_even (B / 2 powi eB)"
  have novB: "\<not> (971 < eB \<or> (eB = 971 \<and> 2 ^ 53 \<le> \<bar>mB\<bar>))" and Beq: "B = of_int mB * 2 powi eB"
    using B Bp by (auto simp add: round_double_def Let_def eB_def mB_def split: if_splits)
  have le: "e \<le> eB"
    using floor_log2_mono [of q B] qp q(2) Bp by (simp add: e_def eB_def ulp_exponent_def)
  have "(2::rat) powi eB = 2 powi e * 2 powi (eB - e)" by (simp flip: power_int_add)
  moreover have "(2::rat) powi (eB - e) = 2 ^ nat (eB - e)" using le by (simp add: power_int_def)
  ultimately have Bs: "B / 2 powi e = of_int (mB * 2 ^ nat (eB - e))"
    by (simp add: Beq)
  have "q / 2 powi e \<le> B / 2 powi e" using q(2) by (simp add: divide_right_mono)
  then have mle: "m \<le> mB * 2 ^ nat (eB - e)"
    unfolding m_def Bs by (rule round_half_even_le)
  have "of_int 0 \<le> q / 2 powi e" using q(1) by simp
  then have m0: "0 \<le> m" unfolding m_def by (rule round_half_even_ge)
  have "(of_int m :: rat) \<le> of_int (mB * 2 ^ nat (eB - e))" using mle by (simp only: of_int_le_iff)
  then have "of_int m * 2 powi e \<le> of_int (mB * 2 ^ nat (eB - e)) * (2::rat) powi e"
    by (simp add: mult_right_mono)
  also have "\<dots> = B" using Bs by (simp add: field_simps)
  finally have rB: "of_int m * 2 powi e \<le> B" .
  have nov: "\<not> (971 < e \<or> (e = 971 \<and> 2 ^ 53 \<le> \<bar>m\<bar>))"
  proof (cases "e = 971")
    case True
    then have "eB = 971" using le novB by simp
    then have "m \<le> mB" "\<bar>mB\<bar> < 2 ^ 53" using mle True novB by simp_all
    then show ?thesis using m0 True by simp
  next
    case False
    then show ?thesis using le novB by simp
  qed
  have "round_double q = Fin (of_int m * 2 powi e)"
    using False nov by (simp add: round_double_def Let_def m_def e_def)
  then show ?thesis using rB m0 by simp
qed

lemma round_double_int [simp]:
  "\<bar>n\<bar> \<le> 9007199254740992 \<Longrightarrow> round_double (of_int n) = Fin (of_int n)"
  using round_double_of_int [of n] by simp

lemma round_double_numeral [simp]:
  "numeral k \<le> (9007199254740992::int) \<Longrightarrow> round_double (numeral k) = Fin (numeral k)"
  using round_double_of_int [of "numeral k"] by simp

lemma round_double_neg_numeral [simp]:
  "numeral k \<le> (9007199254740992::int) \<Longrightarrow> round_double (- numeral k) = Fin (- numeral k)"
  using round_double_of_int [of "- numeral k"] by simp

lemma round_double_0 [simp]: "round_double 0 = Fin 0"
  by (simp add: round_double_def)

lemma round_double_1 [simp]: "round_double 1 = Fin 1"
  using round_double_of_int [of 1] by simp

lemma is_double_of_int: "\<bar>n\<bar> \<le> 2 ^ 53 \<Longrightarrow> is_double (of_int n)"
  by (simp add: is_double_def round_double_of_int)

lemma round_double_overflow: "round_double (2 ^ 1024) = PInf"
proof -
  have "floor_log2 (2 ^ 1024) = 1024"
    by (rule floor_log2_unique) (simp_all add: power_int_def)
  then have "ulp_exponent (2 ^ 1024) = 972"
    by (simp add: ulp_exponent_def)
  then show ?thesis
    by (simp add: round_double_def Let_def)
qed

lemma round_double_power2:
  assumes "k \<le> 1023"
  shows "round_double (2 ^ k) = Fin (2 ^ k)"
proof (cases "k \<le> 971")
  case True
  then show ?thesis
    using round_double_exact [of "2 ^ k" 1 "int k"] by (simp add: power_int_def)
next
  case False
  define j where "j = k - 971"
  have kj: "k = j + 971" and j: "j \<le> 52" using False assms by (simp_all add: j_def)
  have "(2::rat) ^ k = 2 ^ j * 2 ^ 971" unfolding kj by (rule power_add)
  then have eq: "(2::rat) ^ k = of_int (2 ^ j) * 2 powi 971"
    by (simp add: power_int_def)
  have "(2::int) ^ j \<le> 2 ^ 52"
    by (rule power_increasing) (use j in simp_all)
  then have "\<bar>(2::int) ^ j\<bar> < 2 ^ 53" by simp
  then show ?thesis
    using round_double_exact [of "2 ^ k" "2 ^ j" 971] eq by simp
qed

subsection \<open>The remainder of integers\<close>

lemma num_rem_int:
  assumes "0 \<le> a" "0 < b"
  shows "num_rem (Fin (of_int a)) (Fin (of_int b)) = Fin (of_int (a mod b))"
proof -
  have "(0::rat) \<le> of_int a / of_int b" using assms by simp
  then have "trunc (of_int a / of_int b) = a div b"
    by (simp add: trunc_def floor_divide_of_int_eq)
  moreover have "a - b * (a div b) = a mod b"
    by (simp add: minus_mult_div_eq_mod)
  then have "(of_int a :: rat) - of_int b * of_int (a div b) = of_int (a mod b)"
    by (metis of_int_diff of_int_mult)
  ultimately show ?thesis using assms by simp
qed


subsection \<open>The overflow test\<close>

text \<open>
  The test of \<open>round_double\<close> for overflow, on the exponent and the significand, says that
  the rounded value reaches \<open>2^1024\<close>.
\<close>

lemma significand_normal:
  assumes "q \<noteq> 0" "- 1074 < ulp_exponent q"
  shows "2 ^ 52 \<le> \<bar>round_half_even (q / 2 powi (ulp_exponent q))\<bar>"
proof -
  define e where "e = ulp_exponent q"
  define x where "x = q / 2 powi e"
  have qp: "0 < \<bar>q\<bar>" using assms(1) by simp
  have e: "e = floor_log2 \<bar>q\<bar> - 52" using assms(2) by (simp add: e_def ulp_exponent_def)
  have "2 powi (e + 52) \<le> \<bar>q\<bar>" using floor_log2_bounds [OF qp] by (simp add: e)
  moreover have "(2::rat) powi (e + 52) = 2 powi e * 2 ^ 52" by (simp add: power_int_add)
  ultimately have "2 ^ 52 \<le> \<bar>q\<bar> / 2 powi e" by (simp add: pos_le_divide_eq mult.commute)
  moreover have "\<bar>x\<bar> = \<bar>q\<bar> / 2 powi e" by (simp add: x_def abs_divide)
  ultimately have ax: "2 ^ 52 \<le> \<bar>x\<bar>" by simp
  show ?thesis
  proof (cases "0 \<le> x")
    case True
    then have "of_int (2 ^ 52) \<le> x" using ax by simp
    then have "2 ^ 52 \<le> round_half_even x" by (rule round_half_even_ge)
    then show ?thesis by (simp add: x_def e_def)
  next
    case False
    then have "x \<le> of_int (- (2 ^ 52))" using ax by simp
    then have "round_half_even x \<le> - (2 ^ 52)" by (rule round_half_even_le)
    then show ?thesis by (simp add: x_def e_def)
  qed
qed

lemma overflow_test:
  assumes "q \<noteq> 0" and e: "e = ulp_exponent q" and m: "m = round_half_even (q / 2 powi e)"
  shows "(971 < e \<or> (e = 971 \<and> 2 ^ 53 \<le> \<bar>m\<bar>)) \<longleftrightarrow> (2::rat) ^ 1024 \<le> \<bar>of_int m * 2 powi e\<bar>"
proof -
  have v: "\<bar>of_int m * (2::rat) powi e\<bar> = of_int \<bar>m\<bar> * 2 powi e" by (simp add: abs_mult)
  have hi: "\<bar>m\<bar> \<le> 2 ^ 53" using mantissa_bound [OF assms(1)] by (simp add: m e)
  have p1024: "(2::rat) ^ 1024 = 2 ^ 53 * 2 powi 971" by (simp add: power_int_def)
  show ?thesis
  proof (cases "971 < e")
    case True
    then have "- 1074 < ulp_exponent q" by (simp add: e)
    then have "2 ^ 52 \<le> \<bar>m\<bar>" using significand_normal [OF assms(1)] by (simp add: m e)
    then have "(of_int (2 ^ 52) :: rat) \<le> of_int \<bar>m\<bar>" by (simp only: of_int_le_iff)
    moreover have "(2::rat) powi 972 \<le> 2 powi e" using True by (intro powi2_mono) simp
    ultimately have "of_int (2 ^ 52) * (2::rat) powi 972 \<le> of_int \<bar>m\<bar> * 2 powi e"
      by (intro mult_mono) simp_all
    moreover have "of_int (2 ^ 52) * (2::rat) powi 972 = 2 ^ 1024" by (simp add: power_int_def)
    ultimately show ?thesis using True by (simp only: v) simp
  next
    case False
    show ?thesis
    proof (cases "e = 971")
      case True
      have "2 ^ 53 \<le> \<bar>m\<bar> \<longleftrightarrow> (of_int (2 ^ 53) :: rat) \<le> of_int \<bar>m\<bar>"
        by (simp only: of_int_le_iff)
      also have "\<dots> \<longleftrightarrow> of_int (2 ^ 53) * (2::rat) powi 971 \<le> of_int \<bar>m\<bar> * 2 powi 971"
        by (simp only: mult_le_cancel_right_pos powi2_pos)
      also have "\<dots> \<longleftrightarrow> 2 ^ 1024 \<le> \<bar>of_int m * (2::rat) powi e\<bar>"
        using v by (simp only: True p1024 of_int_power of_int_numeral)
      finally show ?thesis using True by simp
    next
      case False
      then have e970: "e \<le> 970" using \<open>\<not> 971 < e\<close> by simp
      have "(of_int \<bar>m\<bar> :: rat) \<le> of_int (2 ^ 53)" using hi by (simp only: of_int_le_iff)
      moreover have "(2::rat) powi e \<le> 2 powi 970" using e970 by (rule powi2_mono)
      ultimately have "of_int \<bar>m\<bar> * (2::rat) powi e \<le> of_int (2 ^ 53) * 2 powi 970"
        by (intro mult_mono) simp_all
      moreover have "of_int (2 ^ 53) * (2::rat) powi 970 < 2 ^ 1024" by (simp add: power_int_def)
      ultimately have "\<not> 2 ^ 1024 \<le> \<bar>of_int m * (2::rat) powi e\<bar>" by (simp only: v)
      then show ?thesis using False \<open>\<not> 971 < e\<close> by simp
    qed
  qed
qed

section \<open>The rounded logarithm\<close>

text \<open>
  Where \<open>n / 2^k\<close> exceeds 1 by \<open>1 / 2^j\<close> or more, its power \<open>2^j\<close> is at least 2 by
  Bernoulli's inequality, so that the power need not be computed.
\<close>

lemma bernoulli_rat: "0 \<le> t \<Longrightarrow> 1 + of_nat n * t \<le> (1 + t :: rat) ^ n"
proof (induction n)
  case 0
  then show ?case by simp
next
  case (Suc n)
  have "1 + of_nat (Suc n) * t \<le> (1 + of_nat n * t) * (1 + t)"
    using Suc.prems by (simp add: algebra_simps)
  also have "\<dots> \<le> (1 + t) ^ n * (1 + t)"
    using Suc by (intro mult_right_mono) simp_all
  finally show ?case by (simp add: mult.commute)
qed

lemma log2_rounds_down_code [code]:
  "log2_rounds_down q k =
     (let x = q / 2 powi k; j = midpoint_exponent k
      in if 1 \<le> 2 ^ j * (x - 1) then False else x ^ (2 ^ j) < 2)"
proof -
  define x where "x = q / 2 powi k"
  define j where "j = midpoint_exponent k"
  have "\<not> x ^ (2 ^ j) < 2" if "1 \<le> 2 ^ j * (x - 1)"
  proof -
    have "0 < (2::rat) ^ j * (x - 1)" using that by linarith
    then have "0 \<le> x - 1" by (simp add: zero_less_mult_iff)
    then have "1 + of_nat (2 ^ j) * (x - 1) \<le> (1 + (x - 1)) ^ (2 ^ j)"
      by (rule bernoulli_rat)
    then have "2 \<le> x ^ (2 ^ j)" using that by simp
    then show ?thesis by simp
  qed
  then show ?thesis
    by (auto simp add: log2_rounds_down_def Let_def simp flip: x_def j_def)
qed


section \<open>The generator in the range of exact arithmetic\<close>

text \<open>
  While \<open>multiplier * current + increment\<close> stays within \<open>2^53\<close>, the product and the sum
  are integers that are doubles, so that one iteration computes the exact value.
\<close>

lemma step_exact:
  assumes "0 \<le> a" "0 \<le> c" "0 < m" "0 \<le> x" "a * x + c \<le> 2 ^ 53"
  shows "num_rem (num_add (num_mul (Fin (of_int a)) (Fin (of_int x))) (Fin (of_int c)))
           (Fin (of_int m)) = Fin (of_int ((a * x + c) mod m))"
proof -
  have ax: "0 \<le> a * x" using assms by simp
  then have "a * x \<le> 2 ^ 53" using assms by linarith
  then have "round_double (of_int (a * x)) = Fin (of_int (a * x))"
    using ax by (intro round_double_of_int) simp
  then have mul: "num_mul (Fin (of_int a)) (Fin (of_int x)) = Fin (of_int (a * x))"
    by simp
  have "round_double (of_int (a * x + c)) = Fin (of_int (a * x + c))"
    using ax assms by (intro round_double_of_int) simp
  then have add: "num_add (Fin (of_int (a * x))) (Fin (of_int c)) = Fin (of_int (a * x + c))"
    by simp
  have "0 \<le> a * x + c" using ax assms by simp
  then show ?thesis
    unfolding mul add using assms(3) by (rule num_rem_int)
qed

lemma recurrence_shift:
  "recurrence a c m x (Suc i) = recurrence a c m ((a * x + c) mod m) i"
  by (induction i) simp_all

lemma upt_0_Suc: "[0..<Suc k] = 0 # map Suc [0..<k]"
proof -
  have "[0..<Suc k] = 0 # [Suc 0..<Suc k]" by (rule upt_conv_Cons) simp
  then show ?thesis by (simp only: map_Suc_upt)
qed

lemma generate_loop_exact:
  assumes "0 \<le> a" "0 \<le> c" "1 < m" "a * (m - 1) + c \<le> 2 ^ 53"
  shows "0 \<le> x \<Longrightarrow> x < m \<Longrightarrow>
         generate_loop (lcg a c m s) k (Fin (of_int x)) =
         map (\<lambda>i. Fin (of_int (recurrence a c m x (Suc i)))) [0..<k]"
proof (induction k arbitrary: x)
  case 0
  then show ?case by simp
next
  case (Suc k)
  have "a * x \<le> a * (m - 1)" using Suc.prems assms(1) by (intro mult_left_mono) simp_all
  then have bound: "a * x + c \<le> 2 ^ 53" using assms(4) by linarith
  define x' where "x' = (a * x + c) mod m"
  have x': "0 \<le> x'" "x' < m" using assms(3) by (simp_all add: x'_def)
  have step: "num_rem (num_add (num_mul (multiplier (lcg a c m s)) (Fin (of_int x)))
                (increment (lcg a c m s))) (modulus (lcg a c m s)) = Fin (of_int x')"
    using step_exact [of a c m x] assms Suc.prems bound by (simp add: lcg_def x'_def)
  have r0: "recurrence a c m x (Suc 0) = x'" by (simp add: x'_def)
  have rs: "recurrence a c m x (Suc (Suc i)) = recurrence a c m x' (Suc i)" for i
    using recurrence_shift [of a c m x "Suc i"] by (simp only: x'_def)
  have "generate_loop (lcg a c m s) (Suc k) (Fin (of_int x)) =
        Fin (of_int x') # generate_loop (lcg a c m s) k (Fin (of_int x'))"
    by (simp only: generate_loop.simps step Let_def)
  also have "\<dots> = Fin (of_int x') # map (\<lambda>i. Fin (of_int (recurrence a c m x' (Suc i)))) [0..<k]"
    using Suc.IH [OF x'] by simp
  also have "\<dots> = map (\<lambda>i. Fin (of_int (recurrence a c m x (Suc i)))) [0..<Suc k]"
    by (simp only: upt_0_Suc list.map map_map o_def r0 rs)
  finally show ?case .
qed

lemma generate_exact:
  assumes "0 \<le> a" "0 \<le> c" "1 < m" "0 \<le> s" "s < m" "a * (m - 1) + c \<le> 2 ^ 53"
  shows "generate (lcg a c m s) n =
         map (\<lambda>i. Fin (of_int (recurrence a c m s (Suc i)))) [0..<nat n]"
  using generate_loop_exact [OF assms(1,2,3,6) assms(4,5), of s "nat n"]
  by (simp add: generate_def lcg_def)

lemma generate_length [simp]: "length (generate g n) = nat n"
proof -
  have "length (generate_loop g k x) = k" for k x
    by (induction k arbitrary: x) (simp_all add: Let_def)
  then show ?thesis by (simp add: generate_def)
qed

section \<open>Claims about the generator\<close>

text \<open>
  Claim C10. For every generator and every count \<open>\<le> 0\<close>, \<open>generate\<close> and
  \<open>generateNormalized\<close> return the empty sequence: the loop body never runs, and nothing
  in either function can fail.
\<close>

theorem generate_nonpositive_count:
  "count \<le> 0 \<Longrightarrow> generate g count = [] \<and> generateNormalized g count = []"
  by (simp add: generate_def generateNormalized_def)

theorem generate_nonpositive_count_witness:
  "(- 3 :: int) \<le> 0 \<and> generate (lcg 5 3 16 1) (- 3) = []
   \<and> generateNormalized (lcg 5 3 16 1) (- 3) = []"
  using generate_nonpositive_count [of "- 3" "lcg 5 3 16 1"] by simp

text \<open>
  Claim C1, as stated, for every valid parameter set: it fails as soon as
  \<open>multiplier * current + increment\<close> is not a double. With multiplier \<open>2^54\<close>, increment 1,
  modulus 16 and seed 1 the sum \<open>2^54 + 1\<close> is rounded to \<open>2^54\<close>, and the first value emitted
  is 0, where the recurrence gives \<open>x[1] = 1\<close>.
\<close>

theorem generate_recurrence_counterexample:
  "generate (lcg (2 ^ 54) 1 16 1) 1 = [Fin 0] \<and> recurrence (2 ^ 54) 1 16 1 1 = 1"
  by code_simp

text \<open>
  Claim C1, amended. For valid parameters with
  \<open>multiplier * (modulus - 1) + increment \<le> 2^53\<close> and every count \<open>n \<ge> 1\<close>, the values
  emitted by \<open>generate n\<close> are \<open>x[1], ..., x[n]\<close> of the recurrence, in this order: the seed
  \<open>x[0]\<close> is not emitted. For multiplier 5, increment 3, modulus 16, seed 1 and \<open>n = 5\<close> the
  sequence is 8, 11, 10, 5, 12.
\<close>

theorem generate_recurrence:
  assumes "0 \<le> a" "0 \<le> c" "1 < m" "0 \<le> s" "s < m"
    and "a * (m - 1) + c \<le> 2 ^ 53" and "1 \<le> n"
  shows "generate (lcg a c m s) n =
           map (\<lambda>i. Fin (of_int (recurrence a c m s (Suc i)))) [0..<nat n]
         \<and> generate (lcg 5 3 16 1) 5 = [Fin 8, Fin 11, Fin 10, Fin 5, Fin 12]"
proof
  show "generate (lcg a c m s) n =
          map (\<lambda>i. Fin (of_int (recurrence a c m s (Suc i)))) [0..<nat n]"
    using assms(1-6) by (rule generate_exact)
  have "generate (lcg 5 3 16 1) 5 =
          map (\<lambda>i. Fin (of_int (recurrence 5 3 16 1 (Suc i)))) [0..<nat 5]"
    by (rule generate_exact) simp_all
  also have "\<dots> = [Fin 8, Fin 11, Fin 10, Fin 5, Fin 12]"
    by (simp add: eval_nat_numeral upt_0_Suc del: upt_Suc)
  finally show "generate (lcg 5 3 16 1) 5 = [Fin 8, Fin 11, Fin 10, Fin 5, Fin 12]" .
qed

theorem generate_recurrence_witness:
  "(0::int) \<le> 5 \<and> (0::int) \<le> 3 \<and> (1::int) < 16 \<and> (0::int) \<le> 1 \<and> (1::int) < 16
   \<and> (5::int) * (16 - 1) + 3 \<le> 2 ^ 53 \<and> (1::int) \<le> 5
   \<and> generate (lcg 5 3 16 1) 5 =
       map (\<lambda>i. Fin (of_int (recurrence 5 3 16 1 (Suc i)))) [0..<nat 5]"
  using generate_recurrence [of 5 3 16 1 5] by simp

text \<open>
  Claim C9, as stated: the arithmetic is exact for every magnitude the validator accepts,
  intermediate overflow being guarded. The generator computes with doubles and has no
  guard. The validator accepts the multiplier \<open>2^60\<close> with seed 5, increment 3 and count 7
  (modulus 8); \<open>2^60 * 5 + 3\<close> is rounded to \<open>2^60 * 5\<close>, and the first value emitted is 0,
  where the exact value is 3.
\<close>

theorem exact_arithmetic_counterexample:
  "validateInputs \<lparr>seed_text = ''5'', multiplier_text = ''1152921504606846976'',
                   increment_text = ''3'', count_text = ''7''\<rparr>
     = Inr \<lparr>seed_num = Fin 5, multiplier_num = Fin (2 ^ 60), increment_num = Fin 3,
            count_num = Fin 7, modulus_num = Fin 8\<rparr>
   \<and> generate \<lparr>multiplier = Fin (2 ^ 60), increment = Fin 3, modulus = Fin 8, seed = Fin 5\<rparr> 1
       = [Fin 0]
   \<and> ((2 ^ 60 * 5 + 3) mod 8 :: int) = 3"
  by code_simp

text \<open>
  Claim C9, amended. For valid parameters with
  \<open>multiplier * (modulus - 1) + increment \<le> 2^53\<close>, every value emitted is the exact
  \<open>(multiplier * previous + increment) mod modulus\<close>, where \<open>previous\<close> is the seed for the
  first value and the value emitted before for the others, and lies in \<open>[0, modulus)\<close>.
  The bound is not checked by the code, and nothing is claimed beyond it.
\<close>

theorem exact_arithmetic:
  assumes "0 \<le> a" "0 \<le> c" "1 < m" "0 \<le> s" "s < m"
    and "a * (m - 1) + c \<le> 2 ^ 53"
  shows "\<exists>rs. generate (lcg a c m s) n = map (\<lambda>r. Fin (of_int r)) rs
              \<and> length rs = nat n
              \<and> (\<forall>i < length rs.
                    rs ! i = (a * (if i = 0 then s else rs ! (i - 1)) + c) mod m
                    \<and> 0 \<le> rs ! i \<and> rs ! i < m)"
proof -
  define rs where "rs = map (\<lambda>i. recurrence a c m s (Suc i)) [0..<nat n]"
  have "generate (lcg a c m s) n = map (\<lambda>r. Fin (of_int r)) rs"
    using generate_exact [OF assms, of n] by (simp add: rs_def o_def)
  moreover have "length rs = nat n" by (simp add: rs_def)
  moreover have "rs ! i = (a * (if i = 0 then s else rs ! (i - 1)) + c) mod m
                 \<and> 0 \<le> rs ! i \<and> rs ! i < m" if "i < length rs" for i
  proof (cases i)
    case 0
    then show ?thesis using that assms(3) by (simp add: rs_def)
  next
    case (Suc j)
    then show ?thesis using that assms(3) by (simp add: rs_def)
  qed
  ultimately show ?thesis by blast
qed

theorem exact_arithmetic_witness:
  "(0::int) \<le> 5 \<and> (0::int) \<le> 3 \<and> (1::int) < 16 \<and> (0::int) \<le> 1 \<and> (1::int) < 16
   \<and> (5::int) * (16 - 1) + 3 \<le> 2 ^ 53
   \<and> (\<exists>rs. generate (lcg 5 3 16 1) 2 = map (\<lambda>r. Fin (of_int r)) rs
           \<and> length rs = nat 2
           \<and> (\<forall>i < length rs.
                 rs ! i = (5 * (if i = 0 then 1 else rs ! (i - 1)) + 3) mod 16
                 \<and> 0 \<le> rs ! i \<and> rs ! i < 16))"
  using exact_arithmetic [of 5 3 16 1 2] by simp

section \<open>The generator beyond the range of exact arithmetic\<close>

subsection \<open>Integers that are doubles\<close>

lemma floor_log2_ge:
  assumes "2 powi k \<le> q"
  shows "k \<le> floor_log2 q"
proof -
  have q: "0 < q" using assms powi2_pos [of k] by linarith
  have "2 powi k < (2::rat) powi (floor_log2 q + 1)"
    using assms floor_log2_bounds [OF q] by linarith
  then show ?thesis by (simp add: powi2_less_iff)
qed

lemma round_double_int_result:
  assumes "round_double (of_int n) = Fin r"
  shows "\<exists>k. r = of_int k"
proof (cases "\<bar>n\<bar> \<le> 2 ^ 53")
  case True
  then have "round_double (of_int n) = Fin (of_int n)" by (rule round_double_of_int)
  then show ?thesis using assms by auto
next
  case False
  define q :: rat where "q = of_int n"
  define e where "e = ulp_exponent q"
  define m where "m = round_half_even (q / 2 powi e)"
  have q0: "q \<noteq> 0" using False by (auto simp add: q_def)
  have "(2::rat) powi 53 \<le> \<bar>q\<bar>"
  proof -
    have "(2::int) ^ 53 \<le> \<bar>n\<bar>" using False by simp
    then have "(of_int (2 ^ 53) :: rat) \<le> of_int \<bar>n\<bar>" by (simp only: of_int_le_iff)
    then show ?thesis by (simp add: q_def)
  qed
  then have "53 \<le> floor_log2 \<bar>q\<bar>" by (rule floor_log2_ge)
  then have e: "1 \<le> e" by (simp add: e_def ulp_exponent_def)
  have "r = of_int m * 2 powi e"
    using assms q0 by (auto simp add: round_double_def Let_def q_def e_def m_def split: if_splits)
  moreover have "(2::rat) powi e = of_int (2 ^ nat e)" using e by (simp add: power_int_def)
  ultimately have "r = of_int (m * 2 ^ nat e)" by simp
  then show ?thesis by blast
qed

text \<open>An integer double from \<open>2^53\<close> on is a 53-bit integer times a power of two.\<close>

lemma double_normal_form:
  assumes d: "is_double (of_int x)" and x: "2 ^ 53 \<le> x"
  obtains K k where "x = K * 2 ^ k" "2 ^ 52 \<le> K" "K < 2 ^ 53" "1 \<le> k" "k \<le> 971"
proof -
  define q :: rat where "q = of_int x"
  define fl where "fl = floor_log2 q"
  define e where "e = ulp_exponent q"
  define m where "m = round_half_even (q / 2 powi e)"
  have qpos: "0 < q" using x by (simp add: q_def)
  have ge: "(2::rat) powi 53 \<le> q"
  proof -
    have "(of_int (2 ^ 53) :: rat) \<le> of_int x" using x by (simp only: of_int_le_iff)
    then show ?thesis by (simp add: q_def)
  qed
  then have fl53: "53 \<le> fl" unfolding fl_def by (rule floor_log2_ge)
  have e_eq: "e = fl - 52" using fl53 qpos by (simp add: e_def ulp_exponent_def fl_def)
  have e1: "1 \<le> e" using fl53 e_eq by simp
  have nov: "\<not> (971 < e \<or> (e = 971 \<and> 2 ^ 53 \<le> \<bar>m\<bar>))" and req: "q = of_int m * 2 powi e"
    using d qpos
    by (auto simp add: is_double_def round_double_def Let_def q_def e_def m_def split: if_splits)
  have pe: "(2::rat) powi e = of_int (2 ^ nat e)" using e1 by (simp add: power_int_def)
  have "(of_int x :: rat) = of_int (m * 2 ^ nat e)" using req pe by (simp add: q_def)
  then have xm: "x = m * 2 ^ nat e" by (simp only: of_int_eq_iff)
  have b: "2 powi fl \<le> q" "q < 2 powi (fl + 1)"
    using floor_log2_bounds [OF qpos] by (simp_all add: fl_def)
  have pp: "(0::rat) < 2 powi e" by simp
  have "(2::rat) powi fl = 2 ^ 52 * 2 powi e" by (simp add: e_eq power_int_diff)
  then have "2 ^ 52 * 2 powi e \<le> of_int m * (2::rat) powi e" using b(1) req by simp
  then have "(2::rat) ^ 52 \<le> of_int m" using pp by (simp only: mult_le_cancel_right_pos)
  then have "(of_int (2 ^ 52) :: rat) \<le> of_int m" by simp
  then have m_lo: "2 ^ 52 \<le> m" by (simp only: of_int_le_iff)
  have "(2::rat) powi (fl + 1) = 2 ^ 53 * 2 powi e" by (simp add: e_eq power_int_diff power_int_add)
  then have "of_int m * (2::rat) powi e < 2 ^ 53 * 2 powi e" using b(2) req by simp
  then have "of_int m < (2::rat) ^ 53" using pp by (simp only: mult_less_cancel_right_pos)
  then have "(of_int m :: rat) < of_int (2 ^ 53)" by simp
  then have m_hi: "m < 2 ^ 53" by (simp only: of_int_less_iff)
  have "e \<le> 971" using nov by linarith
  then have "nat e \<le> 971" "1 \<le> nat e" using e1 by linarith+
  then show ?thesis using that [of m "nat e"] xm m_lo m_hi by blast
qed

lemma is_double_scaled:
  assumes "0 \<le> R" "R < 2 ^ 53" "k \<le> 971"
  shows "is_double (of_int (R * 2 ^ k))"
proof -
  have "(of_int (R * 2 ^ k) :: rat) = of_int R * 2 powi (int k)" by (simp add: power_int_def)
  then have "round_double (of_int (R * 2 ^ k)) = Fin (of_int (R * 2 ^ k))"
    using assms by (intro round_double_exact [of _ R "int k"]) simp_all
  then show ?thesis by (simp only: is_double_def)
qed

text \<open>The remainder of two doubles that are integers is a double.\<close>

lemma mod_is_double:
  assumes dx: "is_double (of_int x)" and dm: "is_double (of_int m)"
    and x: "0 \<le> x" and m: "0 < m"
  shows "is_double (of_int (x mod m))"
proof (cases "m \<le> 2 ^ 53")
  case True
  have "0 \<le> x mod m" "x mod m < m" using m by simp_all
  then have "\<bar>x mod m\<bar> \<le> 2 ^ 53" using True by linarith
  then show ?thesis by (rule is_double_of_int)
next
  case False
  then have m53: "2 ^ 53 \<le> m" by simp
  show ?thesis
  proof (cases "x < m")
    case True
    then show ?thesis using dx x by simp
  next
    case False
    then have xm: "m \<le> x" by simp
    then have x53: "2 ^ 53 \<le> x" using m53 by linarith
    obtain K k where mk: "m = K * 2 ^ k" "2 ^ 52 \<le> K" "K < 2 ^ 53" "1 \<le> k" "k \<le> 971"
      using double_normal_form [OF dm m53] by blast
    obtain X j where xj: "x = X * 2 ^ j" "2 ^ 52 \<le> X" "X < 2 ^ 53" "1 \<le> j" "j \<le> 971"
      using double_normal_form [OF dx x53] by blast
    have kj: "k \<le> j"
    proof (rule ccontr)
      assume "\<not> k \<le> j"
      then have "Suc j \<le> k" by simp
      then have "(2::int) ^ Suc j \<le> 2 ^ k" by (intro power_increasing) simp_all
      then have "2 ^ 52 * (2::int) ^ Suc j \<le> K * 2 ^ k"
        using mk(2) by (intro mult_mono) simp_all
      then have "2 ^ 53 * (2::int) ^ j \<le> m" by (simp add: mk(1))
      moreover have "X * 2 ^ j < 2 ^ 53 * (2::int) ^ j"
        using xj(3) by (intro mult_strict_right_mono) simp_all
      ultimately show False using xm xj(1) by linarith
    qed
    have "(2::int) ^ k dvd 2 ^ j" using kj by (rule le_imp_power_dvd)
    then have "(2::int) ^ k dvd x" by (simp add: xj(1))
    moreover have "(2::int) ^ k dvd m" by (simp add: mk(1))
    ultimately have "(2::int) ^ k dvd x mod m" by (simp add: dvd_mod)
    then obtain R where R: "x mod m = R * 2 ^ k" by (auto simp add: dvd_def mult.commute)
    have r: "0 \<le> x mod m" "x mod m < m" using m by simp_all
    have p: "(0::int) < 2 ^ k" by simp
    have "0 \<le> R" using r(1) R p by (simp add: zero_le_mult_iff)
    moreover have "R * 2 ^ k < K * 2 ^ k" using r(2) R mk(1) by simp
    then have "R < K" using p by (simp only: mult_less_cancel_right_pos)
    then have "R < 2 ^ 53" using mk(3) by simp
    ultimately have "is_double (of_int (R * 2 ^ k))" using mk(5) by (rule is_double_scaled)
    then show ?thesis by (simp only: R)
  qed
qed

text \<open>A double below another one is below it by at least the relative spacing.\<close>

lemma double_quotient_bound:
  assumes dr: "is_double (of_int r)" and dm: "is_double (of_int m)"
    and r: "0 \<le> r" and rm: "r < m"
  shows "2 ^ 53 * r \<le> (2 ^ 53 - 1) * m"
proof (cases "r < 2 ^ 53")
  case True
  show ?thesis
  proof (cases "m \<le> 2 ^ 53")
    case True
    have "r \<le> m - 1" using rm by simp
    then have "2 ^ 53 * r \<le> 2 ^ 53 * (m - 1)" by (intro mult_left_mono) simp_all
    also have "\<dots> = 2 ^ 53 * m - 2 ^ 53" by (simp add: algebra_simps)
    also have "\<dots> \<le> 2 ^ 53 * m - m" using True by simp
    also have "\<dots> = (2 ^ 53 - 1) * m" by (simp add: algebra_simps)
    finally show ?thesis .
  next
    case False
    have "r \<le> 2 ^ 53 - 1" using \<open>r < 2 ^ 53\<close> by simp
    then have "2 ^ 53 * r \<le> 2 ^ 53 * (2 ^ 53 - 1)" by (intro mult_left_mono) simp_all
    also have "\<dots> = (2 ^ 53 - 1) * (2 ^ 53 :: int)" by simp
    also have "\<dots> \<le> (2 ^ 53 - 1) * m" using False by (intro mult_left_mono) simp_all
    finally show ?thesis .
  qed
next
  case False
  then have r53: "2 ^ 53 \<le> r" by simp
  then have m53: "2 ^ 53 \<le> m" using rm by simp
  obtain K k where mk: "m = K * 2 ^ k" "2 ^ 52 \<le> K" "K < 2 ^ 53" "1 \<le> k" "k \<le> 971"
    using double_normal_form [OF dm m53] by blast
  obtain R j where rj: "r = R * 2 ^ j" "2 ^ 52 \<le> R" "R < 2 ^ 53" "1 \<le> j" "j \<le> 971"
    using double_normal_form [OF dr r53] by blast
  have jk: "j \<le> k"
  proof (rule ccontr)
    assume "\<not> j \<le> k"
    then have "Suc k \<le> j" by simp
    then have "(2::int) ^ Suc k \<le> 2 ^ j" by (intro power_increasing) simp_all
    then have "2 ^ 52 * (2::int) ^ Suc k \<le> R * 2 ^ j"
      using rj(2) by (intro mult_mono) simp_all
    then have "2 ^ 53 * (2::int) ^ k \<le> r" by (simp add: rj(1))
    moreover have "K * 2 ^ k < 2 ^ 53 * (2::int) ^ k"
      using mk(3) by (intro mult_strict_right_mono) simp_all
    ultimately show False using rm mk(1) by linarith
  qed
  show ?thesis
  proof (cases "j = k")
    case True
    have p: "(0::int) < 2 ^ k" by simp
    have "R * 2 ^ k < K * 2 ^ k" using rm rj(1) mk(1) True by simp
    then have "R < K" using p by (simp only: mult_less_cancel_right_pos)
    then have "R \<le> K - 1" by simp
    then have "2 ^ 53 * R \<le> 2 ^ 53 * (K - 1)" by (intro mult_left_mono) simp_all
    also have "\<dots> = 2 ^ 53 * K - 2 ^ 53" by (simp add: algebra_simps)
    also have "\<dots> \<le> 2 ^ 53 * K - K" using mk(3) by simp
    also have "\<dots> = (2 ^ 53 - 1) * K" by (simp add: algebra_simps)
    finally have "2 ^ 53 * R \<le> (2 ^ 53 - 1) * K" .
    then have "(2 ^ 53 * R) * 2 ^ k \<le> ((2 ^ 53 - 1) * K) * 2 ^ k"
      by (intro mult_right_mono) simp_all
    then show ?thesis by (simp add: rj(1) mk(1) True mult.assoc)
  next
    case False
    then have "Suc j \<le> k" using jk by simp
    then have "(2::int) ^ Suc j \<le> 2 ^ k" by (intro power_increasing) simp_all
    then have "2 ^ 52 * (2::int) ^ Suc j \<le> K * 2 ^ k"
      using mk(2) by (intro mult_mono) simp_all
    then have mlow: "2 ^ 53 * (2::int) ^ j \<le> m" by (simp add: mk(1))
    have "R \<le> 2 ^ 53 - 1" using rj(3) by simp
    then have "R * 2 ^ j \<le> (2 ^ 53 - 1) * (2::int) ^ j" by (intro mult_right_mono) simp_all
    then have "2 ^ 53 * r \<le> 2 ^ 53 * ((2 ^ 53 - 1) * (2::int) ^ j)"
      unfolding rj(1) by (intro mult_left_mono) simp_all
    also have "\<dots> = (2 ^ 53 - 1) * (2 ^ 53 * (2::int) ^ j)" by simp
    also have "\<dots> \<le> (2 ^ 53 - 1) * m" using mlow by (intro mult_left_mono) simp_all
    finally show ?thesis .
  qed
qed

lemma below_one_is_double: "round_double (1 - 1 / 2 ^ 53) = Fin (1 - 1 / 2 ^ 53)"
proof -
  have "(1 - 1 / 2 ^ 53 :: rat) = of_int (2 ^ 53 - 1) * 2 powi (- 53)"
    by (simp add: power_int_def field_simps)
  then show ?thesis by (rule round_double_exact) simp_all
qed

text \<open>The quotient of a double by a larger one is rounded to a double below 1.\<close>

lemma quotient_below_one:
  assumes "is_double (of_int r)" "is_double (of_int m)" "0 \<le> r" "r < m"
  shows "\<exists>q. num_div (Fin (of_int r)) (Fin (of_int m)) = Fin q \<and> 0 \<le> q \<and> q < 1"
proof -
  have m: "0 < m" using assms(3,4) by simp
  have "2 ^ 53 * r \<le> (2 ^ 53 - 1) * m" using assms by (rule double_quotient_bound)
  then have "(of_int (2 ^ 53 * r) :: rat) \<le> of_int ((2 ^ 53 - 1) * m)"
    by (simp only: of_int_le_iff)
  then have "2 ^ 53 * (of_int r :: rat) \<le> (2 ^ 53 - 1) * of_int m" by simp
  then have "(of_int r :: rat) / of_int m \<le> (2 ^ 53 - 1) / 2 ^ 53"
    using m by (simp add: field_simps)
  then have le: "(of_int r :: rat) / of_int m \<le> 1 - 1 / 2 ^ 53" by (simp add: field_simps)
  have "(0::rat) \<le> of_int r / of_int m" using assms(3) m by simp
  then obtain q where q: "round_double (of_int r / of_int m) = Fin q" "0 \<le> q" "q \<le> 1 - 1 / 2 ^ 53"
    using round_double_bounded [OF _ le below_one_is_double] by blast
  have "q < 1" using q(3) by simp
  moreover have "num_div (Fin (of_int r)) (Fin (of_int m)) = Fin q" using m q(1) by simp
  ultimately show ?thesis using q(2) by blast
qed

subsection \<open>One iteration without overflow\<close>

lemma round_nonneg_int:
  assumes "0 \<le> p" "p \<le> 2 ^ k" "k \<le> 1023"
  shows "\<exists>y. round_double (of_int p) = Fin (of_int y) \<and> 0 \<le> y \<and> y \<le> 2 ^ k"
proof -
  have B: "round_double (2 ^ k) = Fin (2 ^ k)" using assms(3) by (rule round_double_power2)
  have "(of_int p :: rat) \<le> of_int (2 ^ k)" using assms(2) by (simp only: of_int_le_iff)
  then have le: "(of_int p :: rat) \<le> 2 ^ k" by simp
  have "(0::rat) \<le> of_int p" using assms(1) by simp
  then obtain r where r: "round_double (of_int p) = Fin r" "0 \<le> r" "r \<le> 2 ^ k"
    using round_double_bounded [OF _ le B] by blast
  obtain y where y: "r = of_int y" using round_double_int_result [OF r(1)] by blast
  have "0 \<le> y" using r(2) y by simp
  moreover have "(of_int y :: rat) \<le> of_int (2 ^ k)" using r(3) y by simp
  then have "y \<le> 2 ^ k" by (simp only: of_int_le_iff)
  ultimately show ?thesis using r(1) y by blast
qed

lemma step_in_range:
  assumes "0 \<le> a" "0 \<le> c" "1 < m" "is_double (of_int m)" "a * m + c \<le> 2 ^ 1022"
    and "0 \<le> x" "x < m"
  shows "\<exists>y. num_rem (num_add (num_mul (Fin (of_int a)) (Fin (of_int x))) (Fin (of_int c)))
                (Fin (of_int m)) = Fin (of_int y)
             \<and> 0 \<le> y \<and> y < m \<and> is_double (of_int y)"
proof -
  have am: "0 \<le> a * m" using assms(1,3) by simp
  have "a * x \<le> a * m" using assms(1,7) by (intro mult_left_mono) simp_all
  then have ax: "0 \<le> a * x" "a * x \<le> 2 ^ 1022" using assms(1,2,5,6) by simp_all
  obtain p where p: "round_double (of_int (a * x)) = Fin (of_int p)" "0 \<le> p" "p \<le> 2 ^ 1022"
    using round_nonneg_int [OF ax] by auto
  have c: "c \<le> 2 ^ 1022" using assms(5) am by linarith
  have pc: "0 \<le> p + c" "p + c \<le> 2 ^ 1023" using p(2,3) c assms(2) by simp_all
  obtain t where t: "round_double (of_int (p + c)) = Fin (of_int t)" "0 \<le> t"
    using round_nonneg_int [OF pc] by auto
  have dt: "is_double (of_int t)"
    using round_double_idem [OF t(1)] by (simp only: is_double_def)
  have mul: "num_mul (Fin (of_int a)) (Fin (of_int x)) = Fin (of_int p)"
    using p(1) by simp
  have add: "num_add (Fin (of_int p)) (Fin (of_int c)) = Fin (of_int t)"
    using t(1) by simp
  have m: "0 < m" using assms(3) by simp
  have "num_rem (Fin (of_int t)) (Fin (of_int m)) = Fin (of_int (t mod m))"
    using t(2) m by (rule num_rem_int)
  moreover have "0 \<le> t mod m" "t mod m < m" using m by simp_all
  moreover have "is_double (of_int (t mod m))"
    using dt assms(4) t(2) m by (rule mod_is_double)
  ultimately show ?thesis unfolding mul add by blast
qed

lemma generate_loop_in_range:
  assumes "0 \<le> a" "0 \<le> c" "1 < m" "is_double (of_int m)" "a * m + c \<le> 2 ^ 1022"
  shows "0 \<le> x \<Longrightarrow> x < m \<Longrightarrow>
         \<forall>v \<in> set (generate_loop (lcg a c m s) k (Fin (of_int x))).
           \<exists>y. v = Fin (of_int y) \<and> 0 \<le> y \<and> y < m \<and> is_double (of_int y)"
proof (induction k arbitrary: x)
  case 0
  then show ?case by simp
next
  case (Suc k)
  obtain y where y:
    "num_rem (num_add (num_mul (Fin (of_int a)) (Fin (of_int x))) (Fin (of_int c)))
       (Fin (of_int m)) = Fin (of_int y)"
    "0 \<le> y" "y < m" "is_double (of_int y)"
    using step_in_range [OF assms Suc.prems] by blast
  have "generate_loop (lcg a c m s) (Suc k) (Fin (of_int x)) =
          Fin (of_int y) # generate_loop (lcg a c m s) k (Fin (of_int y))"
    using y(1) by (simp add: lcg_def Let_def)
  then show ?case using Suc.IH [OF y(2,3)] y(2,3,4) by auto
qed

lemma generateNormalized_raw [simp]: "map raw (generateNormalized g n) = generate g n"
  by (simp add: generateNormalized_def o_def)

lemma generateNormalized_length [simp]: "length (generateNormalized g n) = nat n"
  by (simp add: generateNormalized_def)


section \<open>The claim about the samples\<close>

text \<open>
  Claim C2, as stated for every valid parameter set. The multiplier \<open>2^1023\<close> is a
  non-negative integer and a double; with seed 2 its product with the seed is \<open>2^1024\<close>,
  which overflows to \<open>Infinity\<close>, and the remainder of \<open>Infinity\<close> is NaN: the sample has the
  raw value NaN and the normalized value NaN, neither of them in any range.
\<close>

theorem samples_counterexample:
  "is_double (2 ^ 1023)
   \<and> generateNormalized (lcg (2 ^ 1023) 0 16 2) 1 = [\<lparr>raw = NaN, normalized = NaN\<rparr>]"
proof -
  have d: "is_double (2 ^ 1023)"
    using round_double_power2 [of 1023] by (simp only: is_double_def)
  have "(of_int (2 ^ 1023) :: rat) * of_int 2 = 2 ^ 1024" by simp
  then have "num_mul (Fin (of_int (2 ^ 1023))) (Fin (of_int 2)) = PInf"
    by (simp only: num_mul.simps round_double_overflow)
  then have "generate_loop (lcg (2 ^ 1023) 0 16 2) (Suc 0) (Fin (of_int 2)) = [NaN]"
    by (simp add: lcg_def Let_def)
  then have "generate (lcg (2 ^ 1023) 0 16 2) 1 = [NaN]"
    by (simp add: generate_def lcg_def)
  then have "generateNormalized (lcg (2 ^ 1023) 0 16 2) 1 = [\<lparr>raw = NaN, normalized = NaN\<rparr>]"
    by (simp add: generateNormalized_def)
  then show ?thesis using d by (rule conjI [rotated])
qed

text \<open>
  Claim C2, amended. For valid parameters (multiplier and increment \<open>\<ge> 0\<close>, modulus
  \<open>> 1\<close>, \<open>0 \<le>\<close> seed \<open><\<close> modulus) with \<open>multiplier * modulus + increment \<le> 2^1022\<close>, and every
  count \<open>n \<ge> 1\<close>, \<open>generateNormalized n\<close> returns exactly \<open>n\<close> samples, whose raw values are
  the values of \<open>generate n\<close> in the same order; every sample has an integer raw value in
  \<open>[0, modulus)\<close>, and its normalized value is the quotient of the raw value by the modulus
  (rounded to a double) and lies in \<open>[0, 1)\<close>.
\<close>

theorem samples_in_range:
  assumes "0 \<le> a" "0 \<le> c" "1 < m" "0 \<le> s" "s < m"
    and "is_double (of_int m)" and "a * m + c \<le> 2 ^ 1022" and "1 \<le> n"
  shows "length (generateNormalized (lcg a c m s) n) = nat n
         \<and> map raw (generateNormalized (lcg a c m s) n) = generate (lcg a c m s) n
         \<and> (\<forall>smp \<in> set (generateNormalized (lcg a c m s) n).
              \<exists>r q. raw smp = Fin (of_int r) \<and> 0 \<le> r \<and> r < m
                    \<and> normalized smp = num_div (raw smp) (Fin (of_int m))
                    \<and> normalized smp = Fin q \<and> 0 \<le> q \<and> q < 1)"
proof (intro conjI ballI)
  show "length (generateNormalized (lcg a c m s) n) = nat n" by simp
  show "map raw (generateNormalized (lcg a c m s) n) = generate (lcg a c m s) n" by simp
  fix smp
  assume "smp \<in> set (generateNormalized (lcg a c m s) n)"
  then obtain v where v: "v \<in> set (generate (lcg a c m s) n)"
    and smp: "smp = \<lparr>raw = v, normalized = num_div v (Fin (of_int m))\<rparr>"
    by (auto simp add: generateNormalized_def lcg_def)
  have "v \<in> set (generate_loop (lcg a c m s) (nat n) (Fin (of_int s)))"
    using v by (simp add: generate_def lcg_def)
  then obtain r where r: "v = Fin (of_int r)" "0 \<le> r" "r < m" "is_double (of_int r)"
    using generate_loop_in_range [OF assms(1,2,3,6,7) assms(4,5), of s "nat n"] by blast
  obtain q where q: "num_div (Fin (of_int r)) (Fin (of_int m)) = Fin q" "0 \<le> q" "q < 1"
    using quotient_below_one [OF r(4) assms(6) r(2,3)] by blast
  show "\<exists>r q. raw smp = Fin (of_int r) \<and> 0 \<le> r \<and> r < m
              \<and> normalized smp = num_div (raw smp) (Fin (of_int m))
              \<and> normalized smp = Fin q \<and> 0 \<le> q \<and> q < 1"
    using r(1,2,3) q by (intro exI [of _ r] exI [of _ q]) (simp add: smp)
qed

theorem samples_in_range_witness:
  "(0::int) \<le> 5 \<and> (0::int) \<le> 3 \<and> (1::int) < 16 \<and> (0::int) \<le> 1 \<and> (1::int) < 16
   \<and> is_double (of_int 16) \<and> (5::int) * 16 + 3 \<le> 2 ^ 1022 \<and> (1::int) \<le> 5
   \<and> length (generateNormalized (lcg 5 3 16 1) 5) = nat 5
   \<and> (\<exists>r q. raw (generateNormalized (lcg 5 3 16 1) 5 ! 4) = Fin (of_int r) \<and> 0 \<le> r \<and> r < 16
              \<and> normalized (generateNormalized (lcg 5 3 16 1) 5 ! 4) = Fin q
              \<and> 0 \<le> q \<and> q < 1)"
proof -
  have d: "is_double (of_int 16)" by (rule is_double_of_int) simp
  have b: "(5::int) * 16 + 3 \<le> 2 ^ 1022" by simp
  note t = samples_in_range [of 5 3 16 1 5, OF _ _ _ _ _ d b]
  have "generateNormalized (lcg 5 3 16 1) 5 ! 4 \<in> set (generateNormalized (lcg 5 3 16 1) 5)"
    by (rule nth_mem) simp
  then have "\<exists>r q. raw (generateNormalized (lcg 5 3 16 1) 5 ! 4) = Fin (of_int r) \<and> 0 \<le> r \<and> r < 16
              \<and> normalized (generateNormalized (lcg 5 3 16 1) 5 ! 4) = Fin q
              \<and> 0 \<le> q \<and> q < 1"
    using t by fastforce
  then show ?thesis using d b by simp
qed

section \<open>Claims about validation\<close>

lemma isInteger_isFinite: "isInteger v \<Longrightarrow> isFinite v"
  by (cases v) simp_all

lemma getInputValues_errorMessage [simp]:
  "getInputValues (app\<lparr>errorMessage := e\<rparr>) = getInputValues app"
  by (simp add: getInputValues_def)

lemma getInputValues0_errorMessage [simp]:
  "getInputValues0 (app\<lparr>errorMessage := e\<rparr>) = getInputValues0 app"
  by (simp add: getInputValues0_def)

text \<open>An error of validation ends the submission before the generator is called.\<close>

lemma handleSubmit_error:
  "validateInputs (getInputValues app) = Inl e \<Longrightarrow>
   handleSubmit app = (on_error e (app\<lparr>errorMessage := None\<rparr>), [])"
  by (simp add: handleSubmit_def)

lemma handleSubmit0_error:
  "validateInputs0 answer (getInputValues0 app) = (d, Inl e) \<Longrightarrow>
   handleSubmit0 answer app = (on_error e (app\<lparr>errorMessage := None\<rparr>), d)"
  by (simp add: handleSubmit0_def)

lemma handleSubmit_no_dialog: "Confirm \<notin> set (snd (handleSubmit app))"
  by (simp add: handleSubmit_def Let_def split: sum.splits)

text \<open>
  Claim C5. The validator is to fail with the parse error exactly when some field is not
  a base-10 integer literal, an empty field included. The code converts each field with
  \<open>Number\<close>, which turns the empty string into 0: with an empty seed field both validators
  accept the input, and the submission generates numbers from seed 0.
\<close>

theorem empty_field_accepted:
  "validateInputs \<lparr>seed_text = [], multiplier_text = ''5'', increment_text = ''3'',
                   count_text = ''10''\<rparr>
     = Inr \<lparr>seed_num = Fin 0, multiplier_num = Fin 5, increment_num = Fin 3,
            count_num = Fin 10, modulus_num = Fin 16\<rparr>
   \<and> validateInputs0 answer \<lparr>seed_text = [], multiplier_text = ''5'', increment_text = ''3'',
                   count_text = ''10'', modulus_text = ''16''\<rparr>
     = ([], Inr \<lparr>seed_num = Fin 0, multiplier_num = Fin 5, increment_num = Fin 3,
                 count_num = Fin 10, modulus_num = Fin 16\<rparr>)"
  by code_simp

theorem empty_field_accepted_witness:
  "validateInputs0 True \<lparr>seed_text = [], multiplier_text = ''5'', increment_text = ''3'',
                   count_text = ''10'', modulus_text = ''16''\<rparr>
     = ([], Inr \<lparr>seed_num = Fin 0, multiplier_num = Fin 5, increment_num = Fin 3,
                 count_num = Fin 10, modulus_num = Fin 16\<rparr>)"
  using empty_field_accepted [of True] by simp

text \<open>
  Claim C6, as stated for both validators. The validator that reads the modulus from the
  form checks neither the multiplier nor the increment: it accepts the multiplier \<open>-5\<close>.
  It rejects a negative seed, after the check of the modulus, with the message of the seed
  range.
\<close>

theorem negative_rejected_counterexample:
  "validateInputs0 False \<lparr>seed_text = ''1'', multiplier_text = ''-5'', increment_text = ''3'',
                          count_text = ''10'', modulus_text = ''16''\<rparr>
     = ([], Inr \<lparr>seed_num = Fin 1, multiplier_num = Fin (- 5), increment_num = Fin 3,
                 count_num = Fin 10, modulus_num = Fin 16\<rparr>)
   \<and> validateInputs0 False \<lparr>seed_text = ''-1'', multiplier_text = ''5'', increment_text = ''3'',
                          count_text = ''10'', modulus_text = ''16''\<rparr>
     = ([], Inl SeedOutOfRange0)
   \<and> error_class_of SeedOutOfRange0 \<noteq> RangeError"
  by code_simp

text \<open>
  Claim C6, amended. Let all fields be integers. The validator of \<open>src/script.js\<close> rejects
  an input with a negative seed, multiplier or increment with its range error, and the
  submission ends without a call of the generator. The other validator rejects a modulus
  \<open>\<le> 1\<close> with its range error, and rejects a negative seed with that error or with the
  error of the seed range; its submission ends without a call of the generator as well.
  Nothing is said about a negative multiplier or increment there.
\<close>

theorem negative_rejected:
  "(all_integers (getInputValues app)
      \<and> (num_lt (Number (seed_text (getInputValues app))) (Fin 0)
           \<or> num_lt (Number (multiplier_text (getInputValues app))) (Fin 0)
           \<or> num_lt (Number (increment_text (getInputValues app))) (Fin 0))
    \<longrightarrow> validateInputs (getInputValues app) = Inl InvalidValues
        \<and> error_class_of InvalidValues = RangeError
        \<and> snd (handleSubmit app) = [])
   \<and> (all_integers0 (getInputValues0 app)
      \<and> (num_le (Number (modulus_text (getInputValues0 app))) (Fin 1)
           \<or> num_lt (Number (seed_text (getInputValues0 app))) (Fin 0))
    \<longrightarrow> validateInputs0 answer (getInputValues0 app) =
          ([], Inl (if num_le (Number (modulus_text (getInputValues0 app))) (Fin 1)
                    then ModulusTooSmall else SeedOutOfRange0))
        \<and> error_class_of ModulusTooSmall = RangeError
        \<and> snd (handleSubmit0 answer app) = [])"
proof (intro conjI impI)
  define r where "r = getInputValues app"
  assume "all_integers (getInputValues app)
      \<and> (num_lt (Number (seed_text (getInputValues app))) (Fin 0)
           \<or> num_lt (Number (multiplier_text (getInputValues app))) (Fin 0)
           \<or> num_lt (Number (increment_text (getInputValues app))) (Fin 0))"
  then have "all_integers r \<and> (num_lt (Number (seed_text r)) (Fin 0)
           \<or> num_lt (Number (multiplier_text r)) (Fin 0)
           \<or> num_lt (Number (increment_text r)) (Fin 0))"
    by (simp only: r_def)
  then have "validateInputs r = Inl InvalidValues"
    by (auto simp add: validateInputs_def Let_def all_integers_def isInteger_isFinite)
  then show v: "validateInputs (getInputValues app) = Inl InvalidValues"
    by (simp only: r_def)
  show "error_class_of InvalidValues = RangeError" by simp
  show "snd (handleSubmit app) = []"
    using handleSubmit_error [OF v] by simp
next
  define r where "r = getInputValues0 app"
  assume "all_integers0 (getInputValues0 app)
      \<and> (num_le (Number (modulus_text (getInputValues0 app))) (Fin 1)
           \<or> num_lt (Number (seed_text (getInputValues0 app))) (Fin 0))"
  then have "all_integers0 r \<and> (num_le (Number (modulus_text r)) (Fin 1)
           \<or> num_lt (Number (seed_text r)) (Fin 0))"
    by (simp only: r_def)
  then have "validateInputs0 answer r =
          ([], Inl (if num_le (Number (modulus_text r)) (Fin 1)
                    then ModulusTooSmall else SeedOutOfRange0))"
    by (auto simp add: validateInputs0_def Let_def all_integers0_def all_integers_def)
  then show v: "validateInputs0 answer (getInputValues0 app) =
          ([], Inl (if num_le (Number (modulus_text (getInputValues0 app))) (Fin 1)
                    then ModulusTooSmall else SeedOutOfRange0))"
    by (simp only: r_def)
  show "error_class_of ModulusTooSmall = RangeError" by simp
  show "snd (handleSubmit0 answer app) = []"
    using handleSubmit0_error [OF v] by simp
qed

theorem negative_rejected_witness:
  "(all_integers (getInputValues (fresh_app ''-1'' ''5'' ''3'' ''16'' ''10''))
      \<and> num_lt (Number (seed_text (getInputValues (fresh_app ''-1'' ''5'' ''3'' ''16'' ''10''))))
           (Fin 0))
   \<and> validateInputs (getInputValues (fresh_app ''-1'' ''5'' ''3'' ''16'' ''10''))
       = Inl InvalidValues
   \<and> snd (handleSubmit (fresh_app ''-1'' ''5'' ''3'' ''16'' ''10'')) = []
   \<and> (all_integers0 (getInputValues0 (fresh_app ''-1'' ''5'' ''3'' ''16'' ''10''))
      \<and> num_lt (Number (seed_text (getInputValues0 (fresh_app ''-1'' ''5'' ''3'' ''16'' ''10''))))
           (Fin 0)
      \<and> \<not> num_le (Number (modulus_text (getInputValues0 (fresh_app ''-1'' ''5'' ''3'' ''16'' ''10''))))
           (Fin 1))
   \<and> validateInputs0 True (getInputValues0 (fresh_app ''-1'' ''5'' ''3'' ''16'' ''10''))
       = ([], Inl SeedOutOfRange0)
   \<and> snd (handleSubmit0 True (fresh_app ''-1'' ''5'' ''3'' ''16'' ''10'')) = []"
proof -
  have h: "all_integers (getInputValues (fresh_app ''-1'' ''5'' ''3'' ''16'' ''10''))
      \<and> num_lt (Number (seed_text (getInputValues (fresh_app ''-1'' ''5'' ''3'' ''16'' ''10''))))
           (Fin 0)"
    by code_simp
  have h0: "all_integers0 (getInputValues0 (fresh_app ''-1'' ''5'' ''3'' ''16'' ''10''))
      \<and> num_lt (Number (seed_text (getInputValues0 (fresh_app ''-1'' ''5'' ''3'' ''16'' ''10''))))
           (Fin 0)
      \<and> \<not> num_le (Number (modulus_text (getInputValues0 (fresh_app ''-1'' ''5'' ''3'' ''16'' ''10''))))
           (Fin 1)"
    by code_simp
  show ?thesis
    using negative_rejected [of "fresh_app ''-1'' ''5'' ''3'' ''16'' ''10''" True] h h0
    by simp
qed

text \<open>
  Claim C7, as stated for both validators. The validator that reads the modulus from the
  form checks the modulus and the seed before the count: with count 0 and seed 20 outside
  \<open>[0, 16)\<close> it fails with the error of the seed range, not with a range error.
\<close>

theorem count_zero_counterexample:
  "validateInputs0 False \<lparr>seed_text = ''20'', multiplier_text = ''5'', increment_text = ''3'',
                          count_text = ''0'', modulus_text = ''16''\<rparr>
     = ([], Inl SeedOutOfRange0)
   \<and> error_class_of SeedOutOfRange0 = SeedRangeError"
  by code_simp

text \<open>
  Claim C7, amended. Let all fields be integers and the count be 0. The validator of
  \<open>src/script.js\<close> fails with its range error, whatever the other fields are. The other
  validator fails as well: with the range error of the modulus if the modulus is \<open>\<le> 1\<close>,
  else with the error of the seed range if the seed is outside \<open>[0, modulus)\<close>, else with
  the range error of the count.
\<close>

theorem count_zero_rejected:
  "(all_integers r \<and> Number (count_text r) = Fin 0
    \<longrightarrow> validateInputs r = Inl InvalidValues
        \<and> error_class_of InvalidValues = RangeError)
   \<and> (all_integers0 r0 \<and> Number (count_text r0) = Fin 0
    \<longrightarrow> validateInputs0 answer r0 =
          ([], Inl (if num_le (Number (modulus_text r0)) (Fin 1) then ModulusTooSmall
                    else if num_lt (Number (seed_text r0)) (Fin 0)
                            \<or> num_le (Number (modulus_text r0)) (Number (seed_text r0))
                      then SeedOutOfRange0
                    else CountTooSmall))
        \<and> error_class_of ModulusTooSmall = RangeError
        \<and> error_class_of CountTooSmall = RangeError)"
  by (auto simp add: validateInputs_def validateInputs0_def Let_def all_integers0_def
                     all_integers_def isInteger_isFinite)

theorem count_zero_rejected_witness:
  "(all_integers \<lparr>seed_text = ''1'', multiplier_text = ''5'', increment_text = ''3'',
                   count_text = ''0''\<rparr>
      \<and> Number (count_text \<lparr>seed_text = ''1'', multiplier_text = ''5'', increment_text = ''3'',
                              count_text = ''0''\<rparr>) = Fin 0)
   \<and> validateInputs \<lparr>seed_text = ''1'', multiplier_text = ''5'', increment_text = ''3'',
                     count_text = ''0''\<rparr> = Inl InvalidValues
   \<and> (all_integers0 \<lparr>seed_text = ''1'', multiplier_text = ''5'', increment_text = ''3'',
                      count_text = ''0'', modulus_text = ''16''\<rparr>
      \<and> Number (count_text \<lparr>seed_text = ''1'', multiplier_text = ''5'', increment_text = ''3'',
                              count_text = ''0'', modulus_text = ''16''\<rparr>) = Fin 0)
   \<and> validateInputs0 True \<lparr>seed_text = ''1'', multiplier_text = ''5'',
                          increment_text = ''3'', count_text = ''0'',
                          modulus_text = ''16''\<rparr> = ([], Inl CountTooSmall)"
proof -
  have h: "all_integers \<lparr>seed_text = ''1'', multiplier_text = ''5'', increment_text = ''3'',
                   count_text = ''0''\<rparr>
      \<and> Number (count_text \<lparr>seed_text = ''1'', multiplier_text = ''5'', increment_text = ''3'',
                              count_text = ''0''\<rparr>) = Fin 0"
    by code_simp
  have h0: "all_integers0 \<lparr>seed_text = ''1'', multiplier_text = ''5'', increment_text = ''3'',
                      count_text = ''0'', modulus_text = ''16''\<rparr>
      \<and> Number (count_text \<lparr>seed_text = ''1'', multiplier_text = ''5'', increment_text = ''3'',
                              count_text = ''0'', modulus_text = ''16''\<rparr>) = Fin 0"
    by code_simp
  have h1: "Number ''16'' = Fin 16 \<and> Number ''1'' = Fin 1"
    by code_simp
  show ?thesis
    using count_zero_rejected
      [of "\<lparr>seed_text = ''1'', multiplier_text = ''5'', increment_text = ''3'',
            count_text = ''0''\<rparr>"
          "\<lparr>seed_text = ''1'', multiplier_text = ''5'', increment_text = ''3'',
            count_text = ''0'', modulus_text = ''16''\<rparr>" True] h h0 h1
    by simp
qed

text \<open>
  Claim C8, as stated. A submission empties the error region before it validates, so that
  after a declined confirmation an error message shown before is gone: the displayed state
  is not what it was. The validator of \<open>src/script.js\<close> has no confirmation at all: a count
  of 150 goes to the generator without a question.
\<close>

theorem cancellation_counterexample:
  "handleSubmit0 False ((fresh_app ''1'' ''5'' ''3'' ''16'' ''150'')\<lparr>errorMessage := Some CountTooSmall\<rparr>)
     = (fresh_app ''1'' ''5'' ''3'' ''16'' ''150'', [Confirm])
   \<and> (fresh_app ''1'' ''5'' ''3'' ''16'' ''150'')\<lparr>errorMessage := Some CountTooSmall\<rparr>
       \<noteq> fresh_app ''1'' ''5'' ''3'' ''16'' ''150''
   \<and> snd (handleSubmit (fresh_app ''1'' ''5'' ''3'' ''16'' ''150''))
       = [Generate \<lparr>multiplier = Fin 5, increment = Fin 3, modulus = Fin 256, seed = Fin 1\<rparr>
            (Fin 150)]"
proof -
  have v0: "validateInputs0 False (getInputValues0 (fresh_app ''1'' ''5'' ''3'' ''16'' ''150''))
              = ([Confirm], Inl Cancelled)"
    by code_simp
  have v: "validateInputs (getInputValues (fresh_app ''1'' ''5'' ''3'' ''16'' ''150''))
             = Inr \<lparr>seed_num = Fin 1, multiplier_num = Fin 5, increment_num = Fin 3,
                    count_num = Fin 150, modulus_num = Fin 256\<rparr>"
    by code_simp
  have 1: "handleSubmit0 False ((fresh_app ''1'' ''5'' ''3'' ''16'' ''150'')\<lparr>errorMessage := Some CountTooSmall\<rparr>)
     = (fresh_app ''1'' ''5'' ''3'' ''16'' ''150'', [Confirm])"
    by (simp add: handleSubmit0_def v0 on_error_def) (simp add: fresh_app_def)
  have 2: "(fresh_app ''1'' ''5'' ''3'' ''16'' ''150'')\<lparr>errorMessage := Some CountTooSmall\<rparr>
       \<noteq> fresh_app ''1'' ''5'' ''3'' ''16'' ''150''"
    by (simp add: fresh_app_def)
  have 3: "snd (handleSubmit (fresh_app ''1'' ''5'' ''3'' ''16'' ''150''))
       = [Generate \<lparr>multiplier = Fin 5, increment = Fin 3, modulus = Fin 256, seed = Fin 1\<rparr>
            (Fin 150)]"
    by (simp add: handleSubmit_def v Let_def generator_of_def)
  from 1 2 3 show ?thesis by blast
qed

text \<open>
  Claim C8, amended, for the validator that reads the modulus from the form. Whenever a
  submission that is valid otherwise has a count above 100, the confirmation is requested,
  and before the generator is called. If the user declines, the generator is not called,
  no error message is shown, and the results and the plot stay as they were; the error
  region is left empty, as every submission empties it first. The submission of
  \<open>src/script.js\<close> never requests a confirmation.
\<close>

theorem cancellation:
  assumes "validateInputs0 True (getInputValues0 app) = (d, Inr p)"
    and "num_lt (Fin 100) (Number (count_text (getInputValues0 app)))"
  shows "fst (validateInputs0 answer (getInputValues0 app)) = [Confirm]
         \<and> snd (handleSubmit0 True app) = [Confirm, Generate (generator_of p) (count_num p)]
         \<and> handleSubmit0 False app = (app\<lparr>errorMessage := None\<rparr>, [Confirm])
         \<and> Confirm \<notin> set (snd (handleSubmit app'))"
proof -
  define r where "r = getInputValues0 app"
  have ok: "validateInputs0 True r = (d, Inr p)" and big: "num_lt (Fin 100) (Number (count_text r))"
    using assms by (simp_all only: r_def)
  have yes: "validateInputs0 True r = ([Confirm], Inr p)"
    using ok big by (auto simp add: validateInputs0_def Let_def split: if_splits)
  have no: "validateInputs0 False r = ([Confirm], Inl Cancelled)"
    using ok big by (auto simp add: validateInputs0_def Let_def split: if_splits)
  have "fst (validateInputs0 answer r) = [Confirm]"
    using yes no by (cases answer) simp_all
  moreover have "snd (handleSubmit0 True app) = [Confirm, Generate (generator_of p) (count_num p)]"
    using yes by (simp add: handleSubmit0_def Let_def r_def)
  moreover have "handleSubmit0 False app = (app\<lparr>errorMessage := None\<rparr>, [Confirm])"
    using handleSubmit0_error [of False app "[Confirm]" Cancelled] no
    by (simp add: r_def on_error_def)
  ultimately show ?thesis
    using handleSubmit_no_dialog [of app'] by (simp add: r_def)
qed

theorem cancellation_witness:
  "validateInputs0 True (getInputValues0 (fresh_app ''1'' ''5'' ''3'' ''16'' ''150''))
     = ([Confirm], Inr \<lparr>seed_num = Fin 1, multiplier_num = Fin 5, increment_num = Fin 3,
                        count_num = Fin 150, modulus_num = Fin 16\<rparr>)
   \<and> num_lt (Fin 100) (Number (count_text (getInputValues0 (fresh_app ''1'' ''5'' ''3'' ''16'' ''150''))))
   \<and> handleSubmit0 False (fresh_app ''1'' ''5'' ''3'' ''16'' ''150'')
       = ((fresh_app ''1'' ''5'' ''3'' ''16'' ''150'')\<lparr>errorMessage := None\<rparr>, [Confirm])
   \<and> snd (handleSubmit0 True (fresh_app ''1'' ''5'' ''3'' ''16'' ''150''))
       = [Confirm, Generate \<lparr>multiplier = Fin 5, increment = Fin 3, modulus = Fin 16, seed = Fin 1\<rparr>
                    (Fin 150)]"
proof -
  have v: "validateInputs0 True (getInputValues0 (fresh_app ''1'' ''5'' ''3'' ''16'' ''150''))
     = ([Confirm], Inr \<lparr>seed_num = Fin 1, multiplier_num = Fin 5, increment_num = Fin 3,
                        count_num = Fin 150, modulus_num = Fin 16\<rparr>)"
    by code_simp
  have b: "num_lt (Fin 100)
             (Number (count_text (getInputValues0 (fresh_app ''1'' ''5'' ''3'' ''16'' ''150''))))"
    by code_simp
  show ?thesis
    using cancellation [OF v b, of True] v b by (simp add: generator_of_def)
qed

section \<open>Claims about the next power of two\<close>

text \<open>
  \<open>log2_rounds_down q k\<close> says that the logarithm of \<open>q\<close> lies below the midpoint of \<open>k\<close> and
  the next double.
\<close>

lemma log2_rounds_down_log:
  assumes "0 < q"
  shows "log2_rounds_down q k \<longleftrightarrow>
           log 2 (real_of_rat q) < of_int k + 1 / 2 ^ midpoint_exponent k"
proof -
  define j where "j = midpoint_exponent k"
  define x where "x = real_of_rat (q / 2 powi k)"
  have xq: "x = real_of_rat q / 2 powi k"
    by (simp add: x_def of_rat_divide power_int_def of_rat_power of_rat_inverse)
  have xpos: "0 < x" using assms by (simp add: xq)
  have lx: "log 2 x = log 2 (real_of_rat q) - of_int k"
    using assms by (simp add: xq log_divide power_int_def log_nat_power log_inverse)
  have "log2_rounds_down q k \<longleftrightarrow> real_of_rat ((q / 2 powi k) ^ (2 ^ j)) < real_of_rat 2"
    by (simp only: log2_rounds_down_def j_def of_rat_less)
  also have "\<dots> \<longleftrightarrow> x ^ (2 ^ j) < 2" by (simp add: x_def of_rat_power)
  also have "\<dots> \<longleftrightarrow> log 2 (x ^ (2 ^ j)) < log 2 2"
    using xpos by (subst log_less_cancel_iff) simp_all
  also have "\<dots> \<longleftrightarrow> 2 ^ j * log 2 x < 1"
    using xpos by (simp add: log_nat_power)
  also have "\<dots> \<longleftrightarrow> log 2 x < 1 / 2 ^ j"
    by (simp add: field_simps)
  finally show ?thesis by (simp add: lx j_def diff_less_eq add.commute)
qed

lemma floor_log2_of_int:
  assumes "1 \<le> n"
  obtains k where "floor_log2 (of_int n) = int k" "2 ^ k \<le> n" "n < 2 ^ Suc k"
proof -
  define fl where "fl = floor_log2 (of_int n)"
  have q: "(0::rat) < of_int n" using assms by simp
  have "(2::rat) powi 0 \<le> of_int n" using assms by simp
  then have fl0: "0 \<le> fl" unfolding fl_def by (rule floor_log2_ge)
  have b: "2 powi fl \<le> (of_int n :: rat)" "(of_int n :: rat) < 2 powi (fl + 1)"
    using floor_log2_bounds [OF q] by (simp_all add: fl_def)
  have "(2::rat) powi fl = of_int (2 ^ nat fl)" using fl0 by (simp add: power_int_def)
  then have 1: "2 ^ nat fl \<le> n" using b(1) by (simp only: of_int_le_iff)
  have "(2::rat) powi (fl + 1) = of_int (2 ^ Suc (nat fl))"
    using fl0 by (simp add: power_int_def nat_add_distrib)
  then have 2: "n < 2 ^ Suc (nat fl)" using b(2) by (simp only: of_int_less_iff)
  show ?thesis using that [of "nat fl"] fl0 1 2 by (simp add: fl_def)
qed

text \<open>Up to \<open>2^49\<close> the rounding of the logarithm does not reach an integer from above.\<close>

lemma ceil_log2_small:
  assumes "1 \<le> n" "n \<le> 2 ^ 49"
  shows "ceil_log2 (Fin (of_int n)) = ceillog2 (nat n)"
proof -
  obtain k where k: "floor_log2 (of_int n) = int k" "2 ^ k \<le> n" "n < 2 ^ Suc k"
    using floor_log2_of_int [OF assms(1)] by blast
  have pk: "(2::rat) powi (int k) = of_int (2 ^ k)" by (simp add: power_int_def)
  show ?thesis
  proof (cases "n = 2 ^ k")
    case True
    then have "n = int (2 ^ k)" by simp
    then have "nat n = 2 ^ k" by (simp only: nat_int)
    then have c: "ceillog2 (nat n) = k" by (simp only: ceillog2_2_power)
    have "(of_int n :: rat) = 2 powi (int k)" using True by (simp add: power_int_def)
    then have "ceil_log2 (Fin (of_int n)) = k"
      using k(1) by (simp only: ceil_log2_def number.case Let_def simp_thms if_True nat_int)
    then show ?thesis by (simp only: c)
  next
    case False
    then have lt: "2 ^ k < n" using k(2) by simp
    then have "(2::int) ^ k < 2 ^ 49" using assms(2) by simp
    then have k49: "k < 49" using power_less_imp_less_exp [of "2::int" k 49] by simp
    have k0: "k \<noteq> 0" using lt k(3) by (cases "k = 0") simp_all
    have "floor_log2 (of_int (int k)) \<le> 5"
    proof -
      have q: "(0::rat) < of_int (int k)" using k0 by simp
      have "2 powi (floor_log2 (of_int (int k))) \<le> (of_int (int k) :: rat)"
        using floor_log2_bounds [OF q] by simp
      also have "\<dots> < 2 powi 6" using k49 by simp
      finally have "floor_log2 (of_int (int k)) < 6" by (simp only: powi2_less_iff)
      then show ?thesis by simp
    qed
    then have j: "k \<le> midpoint_exponent (int k)"
      using k0 k49 by (simp add: midpoint_exponent_def)
    define x :: rat where "x = of_int n / 2 powi (int k)"
    have "n - 2 ^ k \<ge> 1" using lt by simp
    then have "(of_int 1 :: rat) \<le> of_int (n - 2 ^ k)" by (simp only: of_int_le_iff)
    then have "(1::rat) \<le> of_int n - 2 ^ k" by simp
    then have "1 / 2 ^ k \<le> (of_int n - 2 ^ k) / (2::rat) ^ k"
      by (intro divide_right_mono) simp_all
    also have "\<dots> = x - 1" by (simp add: x_def power_int_def field_simps)
    finally have x1: "1 / 2 ^ k \<le> x - 1" .
    have "(2::rat) ^ k \<le> 2 ^ midpoint_exponent (int k)"
      using j by (intro power_increasing) simp_all
    then have "1 \<le> 2 ^ midpoint_exponent (int k) * (1 / (2::rat) ^ k)" by simp
    also have "\<dots> \<le> 2 ^ midpoint_exponent (int k) * (x - 1)"
      using x1 by (intro mult_left_mono) simp_all
    finally have "\<not> log2_rounds_down (of_int n) (int k)"
      by (simp add: log2_rounds_down_code Let_def x_def)
    moreover have "(of_int n :: rat) \<noteq> 2 powi (int k)"
      using False by (simp only: pk of_int_eq_iff) simp
    ultimately have "ceil_log2 (Fin (of_int n)) = Suc k"
      by (simp add: ceil_log2_def k(1) nat_add_distrib)
    moreover have "ceillog2 (nat n) = Suc k"
    proof (rule ceillog2_eqI)
      have "nat n < 2 ^ Suc k" using k(3) assms(1) by (simp add: nat_less_iff)
      then show "nat n \<le> 2 ^ Suc k" by simp
      have "int (2 ^ k) < n" using lt by simp
      then have "2 ^ k < nat n" by (simp only: zless_nat_eq_int_zless)
      then show "2 ^ Suc k < 2 * nat n" by simp
    qed
    ultimately show ?thesis by simp
  qed
qed

lemma nextPow2_int:
  assumes "1 \<le> n" "n \<le> 2 ^ 49"
  shows "nextPow2 (Fin (of_int n)) = Fin (2 ^ max 1 (ceillog2 (nat n)))"
proof -
  define k where "k = ceillog2 (nat n)"
  have npos: "0 < nat n" using assms(1) by simp
  have "n \<le> 2 ^ 1023" using assms(2) by simp
  then have "nat n \<le> 2 ^ 1023" by (simp add: nat_le_iff)
  then have k: "k \<le> 1023" unfolding k_def using npos by (simp add: ceillog2_le_iff)
  have p: "pow2 k = Fin (2 ^ k)"
    unfolding pow2_def using k by (rule round_double_power2)
  have c: "ceil_log2 (Fin (of_int n)) = k"
    unfolding k_def using assms by (rule ceil_log2_small)
  have "\<not> num_lt (Fin (of_int n)) (Fin 1)" using assms(1) by simp
  then have "nextPow2 (Fin (of_int n)) = Math_max (Fin 2) (Fin (2 ^ k))"
    by (simp add: nextPow2_def c p)
  also have "\<dots> = Fin (2 ^ max 1 k)"
  proof (cases "k = 0")
    case True
    then show ?thesis by simp
  next
    case False
    then have "(2::rat) ^ 1 \<le> 2 ^ k" by (intro power_increasing) simp_all
    then have "(2::rat) \<le> 2 ^ k" by simp
    moreover have "max 1 k = k" using False by simp
    ultimately show ?thesis by auto
  qed
  finally show ?thesis by (simp add: k_def)
qed

text \<open>
  For an integer \<open>n\<close> with \<open>1 \<le> n \<le> 2^49\<close>, \<open>nextPow2 n\<close> is the least power of two \<open>2^k\<close>
  with \<open>k \<ge> 1\<close> and \<open>n \<le> 2^k\<close>.
\<close>

lemma nextPow2_up_to_2_49:
  assumes "1 \<le> n" "n \<le> 2 ^ 49"
  shows "\<exists>k\<ge>1. nextPow2 (Fin (of_int n)) = Fin (2 ^ k) \<and> n \<le> 2 ^ k
            \<and> (2 ^ k div 2 < n \<or> (n \<le> 2 \<and> (2::int) ^ k = 2))
            \<and> (\<forall>j\<ge>1. n \<le> 2 ^ j \<longrightarrow> k \<le> j)"
proof -
  define c where "c = ceillog2 (nat n)"
  define k where "k = max 1 c"
  have npos: "0 < nat n" using assms(1) by simp
  have n: "n = int (nat n)" using assms(1) by simp
  have "nat n \<le> 2 ^ c" unfolding c_def by (rule le_two_power_ceillog2)
  also have "(2::nat) ^ c \<le> 2 ^ k" by (rule power_increasing) (simp_all add: k_def)
  finally have "int (nat n) \<le> int (2 ^ k)" by (simp only: of_nat_le_iff)
  then have le: "n \<le> 2 ^ k" using n by simp
  have half: "2 ^ k div 2 < n \<or> (n \<le> 2 \<and> (2::int) ^ k = 2)"
  proof (cases "c \<le> 1")
    case True
    then have k1: "k = 1" by (simp add: k_def)
    have "nat n \<le> 2 ^ c" unfolding c_def by (rule le_two_power_ceillog2)
    also have "(2::nat) ^ c \<le> 2 ^ 1" using True by (intro power_increasing) simp_all
    finally have "n \<le> 2" by simp
    then show ?thesis using k1 by simp
  next
    case False
    then have kc: "k = c" and c: "c = Suc (c - 1)" by (simp_all add: k_def)
    have "2 ^ c < 2 * nat n" unfolding c_def using npos by (rule two_power_ceillog2_gt)
    moreover have "(2::nat) ^ c = 2 * 2 ^ (c - 1)" by (subst c) simp
    ultimately have "2 * 2 ^ (c - 1) < 2 * nat n" by simp
    then have "2 ^ (c - 1) < nat n" by simp
    then have "int (2 ^ (c - 1)) < int (nat n)" by (simp only: of_nat_less_iff)
    then have "2 ^ (c - 1) < n" using n by simp
    moreover have "(2::int) ^ k div 2 = 2 ^ (c - 1)" by (subst kc, subst c) simp
    ultimately show ?thesis by simp
  qed
  have least: "k \<le> j" if "1 \<le> j" "n \<le> 2 ^ j" for j
  proof -
    have "int (nat n) \<le> int (2 ^ j)" using that(2) n by simp
    then have "nat n \<le> 2 ^ j" by (simp only: of_nat_le_iff)
    then have "c \<le> j" unfolding c_def using npos by (simp add: ceillog2_le_iff)
    then show ?thesis using that(1) by (simp add: k_def)
  qed
  have "nextPow2 (Fin (of_int n)) = Fin (2 ^ k)"
    using nextPow2_int [OF assms] by (simp add: k_def c_def)
  then show ?thesis
    using le half least by (intro exI [of _ k]) (simp add: k_def)
qed

lemma nextPow2_1_10: "nextPow2 (Fin 1) = Fin 2 \<and> nextPow2 (Fin 10) = Fin 16"
proof -
  have "ceillog2 (nat 10) = 4" by (rule ceillog2_eqI) simp_all
  then have "nextPow2 (Fin 10) = Fin 16"
    using nextPow2_int [of 10] by simp
  moreover have "nextPow2 (Fin 1) = Fin 2"
    using nextPow2_int [of 1] by simp
  ultimately show ?thesis by simp
qed

lemma validateInputs_modulus:
  "validateInputs r = Inr p \<Longrightarrow>
     count_num p = Number (count_text r) \<and> modulus_num p = nextPow2 (count_num p)"
  by (auto simp add: validateInputs_def Let_def split: if_splits)

text \<open>
  The largest double, \<open>2^1024 - 2^971\<close>, is an integer; the double nearest to its logarithm
  is 1024, and \<open>2 ** 1024\<close> is \<open>Infinity\<close>.
\<close>

lemma round_double_max: "round_double (2 ^ 1024 - 2 ^ 971) = Fin (2 ^ 1024 - 2 ^ 971)"
proof -
  have "(2::rat) ^ 1024 - 2 ^ 971 = of_int (2 ^ 53 - 1) * 2 powi 971"
    by (simp add: power_int_def)
  then show ?thesis by (rule round_double_exact) simp_all
qed

lemma nextPow2_max: "nextPow2 (Fin (2 ^ 1024 - 2 ^ 971)) = PInf"
proof -
  define q :: rat where "q = 2 ^ 1024 - 2 ^ 971"
  have k: "floor_log2 q = 1023"
    by (rule floor_log2_unique) (simp_all add: power_int_def q_def)
  have f: "floor_log2 1023 = 9"
    by (rule floor_log2_unique) (simp_all add: power_int_def)
  have j: "midpoint_exponent 1023 = 44" by (simp add: midpoint_exponent_def f)
  have "1 \<le> (2::rat) ^ 44 * (q / 2 powi 1023 - 1)" by (simp add: q_def power_int_def)
  then have r: "\<not> log2_rounds_down q 1023"
    by (simp add: log2_rounds_down_code Let_def j)
  have ne: "q \<noteq> 2 powi 1023" unfolding q_def by (simp add: power_int_def)
  have "ceil_log2 (Fin q) = 1024"
    using ne by (simp add: ceil_log2_def k r)
  then have "pow2 (ceil_log2 (Fin q)) = PInf"
    by (simp only: pow2_def round_double_overflow)
  moreover have "isFinite (Fin q)" "\<not> num_lt (Fin q) (Fin 1)" by (simp_all add: q_def)
  ultimately have "nextPow2 (Fin q) = Math_max (Fin 2) PInf"
    by (simp only: nextPow2_def simp_thms if_False)
  then show ?thesis by (simp add: q_def)
qed

text \<open>The logarithm of \<open>2^49 + 1\<close> is nearer to 49 than to the next double.\<close>

lemma power_below_reciprocal:
  "0 \<le> t \<Longrightarrow> of_nat n * t < 1 \<Longrightarrow> (1 + t :: rat) ^ n * (1 - of_nat n * t) \<le> 1"
proof (induction n)
  case 0
  then show ?case by simp
next
  case (Suc n)
  have nt: "of_nat n * t < 1" using Suc.prems by (simp add: algebra_simps)
  have pos: "0 \<le> (1 + t) ^ n" using Suc.prems(1) by simp
  have "(1 + t) * (1 - of_nat (Suc n) * t) = 1 - of_nat n * t - of_nat (Suc n) * (t * t)"
    by (simp add: algebra_simps)
  also have "\<dots> \<le> 1 - of_nat n * t"
    using Suc.prems(1) by simp
  finally have "(1 + t) ^ n * ((1 + t) * (1 - of_nat (Suc n) * t)) \<le> (1 + t) ^ n * (1 - of_nat n * t)"
    using pos by (intro mult_left_mono)
  also have "\<dots> \<le> 1" using Suc.IH [OF Suc.prems(1) nt] .
  finally show ?case by (simp add: mult_ac)
qed

lemma floor_log2_49: "floor_log2 49 = 5"
  by (rule floor_log2_unique) (simp_all add: power_int_def)

lemma log2_rounds_down_example: "log2_rounds_down (2 ^ 49 + 1) 49"
proof -
  define t :: rat where "t = 1 / 2 ^ 49"
  have x: "(2 ^ 49 + 1) / 2 powi 49 = 1 + t" by (simp add: t_def power_int_def field_simps)
  have j: "midpoint_exponent 49 = 48" by (simp add: midpoint_exponent_def floor_log2_49)
  have nt: "of_nat (2 ^ 47) * t = 1 / 4" by (simp add: t_def)
  have "(1 + t) ^ (2 ^ 47) * (1 - of_nat (2 ^ 47) * t) \<le> 1"
    by (rule power_below_reciprocal) (simp_all add: t_def)
  then have "(1 + t) ^ (2 ^ 47) * (3 / 4) \<le> 1" by (simp only: nt) simp
  then have a: "(1 + t) ^ (2 ^ 47) \<le> 4 / 3" by simp
  have "0 \<le> (1 + t) ^ (2 ^ 47)" by (simp add: t_def)
  then have "(1 + t) ^ (2 ^ 47) * (1 + t) ^ (2 ^ 47) \<le> (4 / 3) * (4 / 3)"
    using a by (intro mult_mono) simp_all
  moreover have "(1 + t) ^ (2 ^ 48) = (1 + t) ^ (2 ^ 47) * (1 + t) ^ (2 ^ 47)"
    by (simp flip: power_add)
  ultimately have "(1 + t) ^ (2 ^ 48) < 2" by simp
  then show ?thesis by (simp only: log2_rounds_down_def x j)
qed

lemma nextPow2_example: "nextPow2 (Fin (2 ^ 49 + 1)) = Fin (2 ^ 49)"
proof -
  define q :: rat where "q = 2 ^ 49 + 1"
  have k: "floor_log2 q = 49"
    by (rule floor_log2_unique) (simp_all add: power_int_def q_def)
  have r: "log2_rounds_down q 49"
    using log2_rounds_down_example by (simp only: q_def)
  have "ceil_log2 (Fin q) = 49"
    by (simp add: ceil_log2_def k r)
  moreover have "pow2 49 = Fin (2 ^ 49)"
    unfolding pow2_def by (rule round_double_power2) simp
  moreover have "isFinite (Fin q)" "\<not> num_lt (Fin q) (Fin 1)" by (simp_all add: q_def)
  ultimately have "nextPow2 (Fin q) = Math_max (Fin 2) (Fin (2 ^ 49))"
    by (simp only: nextPow2_def simp_thms if_False)
  then show ?thesis by (simp add: q_def)
qed

text \<open>
  Claim C3. \<open>nextPow2 n\<close> is to be the smallest power of two that is \<open>\<ge> n\<close>, for every
  integer \<open>n \<ge> 1\<close>, as the comment of the function says too. For \<open>n = 2^49 + 1\<close> the logarithm
  exceeds 49 by less than half the distance to the next double, \<open>Math.log2\<close> returns 49, and
  \<open>nextPow2\<close> returns \<open>2^49\<close>, which is below \<open>n\<close>. With this count the validator derives the
  modulus \<open>2^49\<close> and rejects the seed \<open>2^49\<close>, which is below the count.
\<close>

theorem nextPow2_below_argument:
  "nextPow2 (Fin (2 ^ 49 + 1)) = Fin (2 ^ 49)
   \<and> num_lt (nextPow2 (Fin (2 ^ 49 + 1))) (Fin (2 ^ 49 + 1))
   \<and> validateInputs \<lparr>seed_text = ''562949953421312'', multiplier_text = ''5'',
                     increment_text = ''3'', count_text = ''562949953421313''\<rparr>
       = Inl (SeedOutOfRange (Fin (2 ^ 49)))"
proof -
  have n: "Number ''562949953421313'' = Fin (2 ^ 49 + 1)"
          "Number ''562949953421312'' = Fin (2 ^ 49)"
          "Number ''5'' = Fin 5" "Number ''3'' = Fin 3"
    by code_simp+
  note e = nextPow2_example
  have "validateInputs \<lparr>seed_text = ''562949953421312'', multiplier_text = ''5'',
                     increment_text = ''3'', count_text = ''562949953421313''\<rparr>
       = Inl (SeedOutOfRange (Fin (2 ^ 49)))"
    using n e by (simp add: validateInputs_def Let_def)
  moreover have "num_lt (nextPow2 (Fin (2 ^ 49 + 1))) (Fin (2 ^ 49 + 1))"
    using e by simp
  ultimately show ?thesis using e by (simp only: simp_thms)
qed

theorem nextPow2_below_argument_witness:
  "nextPow2 (Fin (2 ^ 49 + 1)) = Fin (2 ^ 49) \<and> (2 ^ 49 :: rat) < 2 ^ 49 + 1"
  using nextPow2_below_argument by simp


section \<open>Claims about the scatter plot\<close>

lemma round_double_nat_diff:
  assumes "u < 2 ^ 32" "d \<le> 2 ^ 32"
  shows "round_double (of_nat u - of_nat d) = Fin (of_nat u - of_nat d)"
proof -
  have "\<bar>int u - int d\<bar> \<le> 2 ^ 53" using assms by simp
  then have "round_double (of_int (int u - int d)) = Fin (of_int (int u - int d))"
    by (rule round_double_of_int)
  then show ?thesis by simp
qed

lemma canvas_extent:
  "num_sub (num_sub (dim w) (Fin 40)) (Fin 20) = Fin (of_nat (unat w) - 60)"
  "num_add (Fin 40) (Fin (of_nat (unat w) - 60)) = Fin (of_nat (unat w) - 20)"
  "num_sub (dim w) (Fin 20) = Fin (of_nat (unat w) - 20)"
  "num_mul (Fin 1) (Fin (of_nat (unat w) - 60)) = Fin (of_nat (unat w) - 60)"
  "num_mul (Fin 0) (Fin (of_nat (unat w) - 60)) = Fin 0"
proof -
  have u: "unat w < 2 ^ 32" using unsigned_less [of w, where 'a = nat] by simp
  have 1: "round_double (of_nat (unat w) - 40) = Fin (of_nat (unat w) - 40)"
    using round_double_nat_diff [of "unat w" 40] u by simp
  have 2: "round_double (of_nat (unat w) - 60) = Fin (of_nat (unat w) - 60)"
    using round_double_nat_diff [of "unat w" 60] u by simp
  have 3: "round_double (of_nat (unat w) - 20) = Fin (of_nat (unat w) - 20)"
    using round_double_nat_diff [of "unat w" 20] u by simp
  have "num_sub (dim w) (Fin 40) = Fin (of_nat (unat w) - 40)"
    using 1 by (simp only: num_sub_def dim_def num_neg.simps num_add.simps) simp
  moreover have "num_sub (Fin (of_nat (unat w) - 40)) (Fin 20) = Fin (of_nat (unat w) - 60)"
    using 2 by (simp only: num_sub_def num_neg.simps num_add.simps) simp
  ultimately show "num_sub (num_sub (dim w) (Fin 40)) (Fin 20) = Fin (of_nat (unat w) - 60)"
    by (simp only:)
  have "(40::rat) + (of_nat (unat w) - 60) = of_nat (unat w) - 20" by simp
  then show "num_add (Fin 40) (Fin (of_nat (unat w) - 60)) = Fin (of_nat (unat w) - 20)"
    using 3 by (simp only: num_add.simps)
  show "num_sub (dim w) (Fin 20) = Fin (of_nat (unat w) - 20)"
    using 3 by (simp only: num_sub_def dim_def num_neg.simps num_add.simps) simp
  show "num_mul (Fin 1) (Fin (of_nat (unat w) - 60)) = Fin (of_nat (unat w) - 60)"
    using 2 by (simp only: num_mul.simps mult_1)
  show "num_mul (Fin 0) (Fin (of_nat (unat w) - 60)) = Fin 0"
    by (simp only: num_mul.simps mult_zero_left round_double_0)
qed

lemma plot_length: "length (plot cv data) = length data"
  by (simp add: plot_def Let_def)

lemma plot_nth:
  assumes "i < length data"
  shows "plot cv data ! i =
     \<lparr>px = num_add padding_left
             (num_mul (num_div (Fin (of_nat i))
                               (Math_max (Fin (of_nat (length data - 1))) (Fin 1)))
                      (num_sub (num_sub (dim (width cv)) padding_left)
                               padding_right)),
      py = num_add padding_top
             (num_mul (num_sub (Fin 1) (normalized (data ! i)))
                      (num_sub (num_sub (dim (height cv)) padding_top)
                               padding_bottom))\<rparr>"
  using assms by (auto simp add: plot_def Let_def nth_enumerate_eq)

text \<open>
  Claim C4. \<open>plot\<close> draws one point per sample, in the order of the samples; the point of
  index \<open>i\<close> out of \<open>n\<close> has \<open>x = left + (i / max (n - 1) 1) * (width - left - right)\<close> and
  \<open>y = top + (1 - normalized) * (height - top - bottom)\<close>, computed with the operators of
  the language, for the width and height of the canvas and the margins 40, 20, 20 and 30
  of the code. For \<open>n = 1\<close> the point has \<open>x = left\<close>; for \<open>n > 1\<close> the last point has
  \<open>x = width - right\<close>.
\<close>

theorem plot_points:
  "length (plot cv data) = length data
   \<and> (\<forall>i < length data. plot cv data ! i =
        \<lparr>px = num_add padding_left
                (num_mul (num_div (Fin (of_nat i))
                                  (Math_max (Fin (of_nat (length data - 1))) (Fin 1)))
                         (num_sub (num_sub (dim (width cv)) padding_left)
                                  padding_right)),
         py = num_add padding_top
                (num_mul (num_sub (Fin 1) (normalized (data ! i)))
                         (num_sub (num_sub (dim (height cv)) padding_top)
                                  padding_bottom))\<rparr>)
   \<and> (length data = 1 \<longrightarrow> px (plot cv data ! 0) = padding_left)
   \<and> (1 < length data \<longrightarrow>
        px (last (plot cv data)) = num_sub (dim (width cv)) padding_right)"
proof (intro conjI allI impI)
  show "length (plot cv data) = length data" by (rule plot_length)
  show "plot cv data ! i =
        \<lparr>px = num_add padding_left
                (num_mul (num_div (Fin (of_nat i))
                                  (Math_max (Fin (of_nat (length data - 1))) (Fin 1)))
                         (num_sub (num_sub (dim (width cv)) padding_left)
                                  padding_right)),
         py = num_add padding_top
                (num_mul (num_sub (Fin 1) (normalized (data ! i)))
                         (num_sub (num_sub (dim (height cv)) padding_top)
                                  padding_bottom))\<rparr>" if "i < length data" for i
    using that by (rule plot_nth)
  show "px (plot cv data ! 0) = padding_left" if n: "length data = 1"
  proof -
    have "num_div (Fin (of_nat 0)) (Math_max (Fin (of_nat (length data - 1))) (Fin 1)) = Fin 0"
      using n by simp
    then have "px (plot cv data ! 0) =
                 num_add padding_left
                   (num_mul (Fin 0) (num_sub (num_sub (dim (width cv)) padding_left) padding_right))"
      using n by (simp only: plot_nth [of 0 data cv] PlotPoint.simps)
    also have "\<dots> = num_add (Fin 40) (Fin 0)"
      by (simp only: padding_left_def padding_right_def canvas_extent)
    also have "\<dots> = padding_left"
      by (simp add: padding_left_def)
    finally show ?thesis .
  qed
  show "px (last (plot cv data)) = num_sub (dim (width cv)) padding_right"
    if n: "1 < length data"
  proof -
    define k where "k = length data - 1"
    have k: "k < length data" "0 < k" using n by (simp_all add: k_def)
    have "plot cv data \<noteq> []" using n plot_length [of cv data] by auto
    then have l: "last (plot cv data) = plot cv data ! k"
      by (simp add: last_conv_nth plot_length k_def)
    have "num_div (Fin (of_nat k)) (Math_max (Fin (of_nat k)) (Fin 1)) = Fin 1"
      using k(2) by simp
    then have q: "num_div (Fin (of_nat k)) (Math_max (Fin (of_nat (length data - 1))) (Fin 1))
                    = Fin 1"
      by (simp only: k_def)
    have "px (last (plot cv data)) =
            num_add padding_left
              (num_mul (Fin 1) (num_sub (num_sub (dim (width cv)) padding_left) padding_right))"
      by (simp only: l plot_nth [OF k(1)] q PlotPoint.simps)
    also have "\<dots> = num_sub (dim (width cv)) padding_right"
      by (simp only: padding_left_def padding_right_def canvas_extent)
    finally show ?thesis .
  qed
qed

theorem plot_points_witness:
  "plot \<lparr>width = 600, height = 400\<rparr> (generateNormalized (lcg 5 3 16 1) 3)
     = [\<lparr>px = Fin 40, py = Fin 195\<rparr>, \<lparr>px = Fin 310, py = Fin (1035 / 8)\<rparr>,
        \<lparr>px = Fin 580, py = Fin (605 / 4)\<rparr>]
   \<and> length (generateNormalized (lcg 5 3 16 1) 3) = 3
   \<and> px (last (plot \<lparr>width = 600, height = 400\<rparr> (generateNormalized (lcg 5 3 16 1) 3)))
       = num_sub (dim 600) padding_right"
proof -
  have e: "plot \<lparr>width = 600, height = 400\<rparr> (generateNormalized (lcg 5 3 16 1) 3)
     = [\<lparr>px = Fin 40, py = Fin 195\<rparr>, \<lparr>px = Fin 310, py = Fin (1035 / 8)\<rparr>,
        \<lparr>px = Fin 580, py = Fin (605 / 4)\<rparr>]"
    by code_simp
  have l: "length (generateNormalized (lcg 5 3 16 1) 3) = 3"
    by (simp add: generateNormalized_def)
  show ?thesis
    using plot_points [of "\<lparr>width = 600, height = 400\<rparr>" "generateNormalized (lcg 5 3 16 1) 3"] e l
    by simp
qed

end
